theory Spec2Isabelle
  imports
    Main
    "HOL-Library.AList"
    "HOL-Library.Char_ord"
    "HOL-Library.List_Lexorder"
    "HOL-Library.Product_Lexorder"
    "HOL-Library.Sublist"
    "HOL-Library.Multiset"
begin

section \<open>Title index: the trie of \<^verbatim>\<open>music_player.py\<close>\<close>

text \<open>
  A \<^verbatim>\<open>TrieNode\<close> has a dictionary \<^verbatim>\<open>children\<close> from one character to a child node and a
  list \<^verbatim>\<open>ends\<close> of the titles that terminate at the node. A Python dictionary keeps its
  keys in insertion order, and \<^verbatim>\<open>prefix_search\<close> iterates over \<^verbatim>\<open>children.items()\<close>, so the
  dictionary is an association list with distinct keys: \<open>AList.update\<close> replaces the value
  of a key in place and appends a new key at the end, as assignment to a dictionary does.
  The nodes of a trie are not shared, so the in-place updates of the source are functional
  updates here.

  A Python string is a sequence of code points. The index works on sequences of characters
  of any type \<open>'c\<close>: it only compares characters for equality. \<^verbatim>\<open>str.lower\<close> belongs to the
  Python library and follows the Unicode case mapping, which is not a map of single
  characters (a capital sigma becomes a final sigma at the end of a word, and the
  lower-case form of a string can be longer than the string). It is therefore not defined
  here: every function that calls it takes it as its first argument \<open>lower\<close>, and every
  theorem holds for every function \<open>lower\<close> from strings to strings.
\<close>

datatype 'c trie = TrieNode (children: "('c \<times> 'c trie) list") (ends: "'c list list")

definition empty_node :: "'c trie" where
  "empty_node = TrieNode [] []"

text \<open>
  The tail of \<^verbatim>\<open>Trie.insert\<close>: the word is appended to \<^verbatim>\<open>ends\<close> unless it is there, and the
  oldest entry is dropped (\<^verbatim>\<open>pop(0)\<close>) when the list has grown beyond 20.
\<close>

definition store_end :: "'c list \<Rightarrow> 'c list list \<Rightarrow> 'c list list" where
  "store_end word es =
     (if word \<in> set es then es
      else (let es' = es @ [word] in if length es' > 20 then tl es' else es'))"

text \<open>
  The loop of \<^verbatim>\<open>Trie.insert\<close> over the characters of \<^verbatim>\<open>word.lower()\<close>: a missing child is
  created empty, then the walk continues in the child.
\<close>

fun insert_from :: "'c list \<Rightarrow> 'c list \<Rightarrow> 'c trie \<Rightarrow> 'c trie" where
  "insert_from [] word node = TrieNode (children node) (store_end word (ends node))"
| "insert_from (ch # rest) word node =
     (let child = (case map_of (children node) ch of None \<Rightarrow> empty_node | Some c \<Rightarrow> c)
      in TrieNode (AList.update ch (insert_from rest word child) (children node)) (ends node))"

definition trie_insert :: "('c list \<Rightarrow> 'c list) \<Rightarrow> 'c list \<Rightarrow> 'c trie \<Rightarrow> 'c trie" where
  "trie_insert lower word root = insert_from (lower word) word root"

text \<open>
  The first loop of \<^verbatim>\<open>Trie.prefix_search\<close>: \<open>None\<close> is the early \<^verbatim>\<open>return []\<close> at a
  character without a child.
\<close>

fun descend :: "'c list \<Rightarrow> 'c trie \<Rightarrow> 'c trie option" where
  "descend [] node = Some node"
| "descend (ch # rest) node =
     (case map_of (children node) ch of None \<Rightarrow> None | Some c \<Rightarrow> descend rest c)"

fun tsize :: "'c trie \<Rightarrow> nat" where
  "tsize (TrieNode cs es) = Suc (sum_list (map (\<lambda>p. tsize (snd p)) cs))"

text \<open>
  The queue loop \<^verbatim>\<open>while q and len(results) < limit\<close>. The source queues pairs of a node
  and a string, and never reads the string (\<^verbatim>\<open>n, _ = q.pop(0)\<close>); the queue here holds the
  nodes.
\<close>

function bfs :: "'c trie list \<Rightarrow> 'c list list \<Rightarrow> int \<Rightarrow> 'c list list" where
  "bfs [] results limit = results"
| "bfs (n # q) results limit =
     (if int (length results) < limit
      then bfs (q @ map snd (children n)) (results @ ends n) limit
      else results)"
  by pat_completeness auto
termination
  by (relation "measure (\<lambda>(q, results, limit). sum_list (map tsize q))")
     (auto simp: comp_def, case_tac n, simp add: comp_def)

text \<open>
  The last loop of \<^verbatim>\<open>Trie.prefix_search\<close>: a word not seen before is appended to \<^verbatim>\<open>out\<close>,
  and the loop breaks, after any word, once \<^verbatim>\<open>out\<close> has \<^verbatim>\<open>limit\<close> entries.
\<close>

fun dedupe :: "'c list list \<Rightarrow> 'c list set \<Rightarrow> 'c list list \<Rightarrow> int \<Rightarrow> 'c list list" where
  "dedupe [] seen out limit = out"
| "dedupe (w # ws) seen out limit =
     (let out' = (if w \<notin> seen then out @ [w] else out);
          seen' = (if w \<notin> seen then insert w seen else seen)
      in if int (length out') \<ge> limit then out' else dedupe ws seen' out' limit)"

definition prefix_search ::
  "('c list \<Rightarrow> 'c list) \<Rightarrow> 'c trie \<Rightarrow> 'c list \<Rightarrow> int \<Rightarrow> 'c list list" where
  "prefix_search lower root pfx limit =
     (case descend (lower pfx) root of
        None \<Rightarrow> []
      | Some node \<Rightarrow> dedupe (bfs [node] [] limit) {} [] limit)"

subsection \<open>Lower-casing in the examples\<close>

text \<open>
  The examples need one function \<open>lower\<close>. A \<open>char\<close> of HOL is one of the first 256 code
  points. On strings of these, \<^verbatim>\<open>str.lower\<close> maps character by character: the letters
  \<^verbatim>\<open>A\<close> to \<^verbatim>\<open>Z\<close> and the capital letters \<^verbatim>\<open>U+00C0\<close> to \<^verbatim>\<open>U+00DE\<close> (the multiplication sign
  \<^verbatim>\<open>U+00D7\<close> is not a letter) go to the code point 32 above, and every other character
  stays.
\<close>

definition latin1_capitals :: "char list" where
  "latin1_capitals =
       [CHR ''A'', CHR ''B'', CHR ''C'', CHR ''D'', CHR ''E'', CHR ''F'', CHR ''G'', CHR ''H'',
        CHR ''I'', CHR ''J'', CHR ''K'', CHR ''L'', CHR ''M'', CHR ''N'', CHR ''O'', CHR ''P'',
        CHR ''Q'', CHR ''R'', CHR ''S'', CHR ''T'', CHR ''U'', CHR ''V'', CHR ''W'', CHR ''X'',
        CHR ''Y'', CHR ''Z'', CHR 0xC0, CHR 0xC1, CHR 0xC2, CHR 0xC3, CHR 0xC4, CHR 0xC5,
        CHR 0xC6, CHR 0xC7, CHR 0xC8, CHR 0xC9, CHR 0xCA, CHR 0xCB, CHR 0xCC, CHR 0xCD,
        CHR 0xCE, CHR 0xCF, CHR 0xD0, CHR 0xD1, CHR 0xD2, CHR 0xD3, CHR 0xD4, CHR 0xD5,
        CHR 0xD6, CHR 0xD8, CHR 0xD9, CHR 0xDA, CHR 0xDB, CHR 0xDC, CHR 0xDD, CHR 0xDE]"

definition latin1_smalls :: "char list" where
  "latin1_smalls =
       [CHR ''a'', CHR ''b'', CHR ''c'', CHR ''d'', CHR ''e'', CHR ''f'', CHR ''g'', CHR ''h'',
        CHR ''i'', CHR ''j'', CHR ''k'', CHR ''l'', CHR ''m'', CHR ''n'', CHR ''o'', CHR ''p'',
        CHR ''q'', CHR ''r'', CHR ''s'', CHR ''t'', CHR ''u'', CHR ''v'', CHR ''w'', CHR ''x'',
        CHR ''y'', CHR ''z'', CHR 0xE0, CHR 0xE1, CHR 0xE2, CHR 0xE3, CHR 0xE4, CHR 0xE5,
        CHR 0xE6, CHR 0xE7, CHR 0xE8, CHR 0xE9, CHR 0xEA, CHR 0xEB, CHR 0xEC, CHR 0xED,
        CHR 0xEE, CHR 0xEF, CHR 0xF0, CHR 0xF1, CHR 0xF2, CHR 0xF3, CHR 0xF4, CHR 0xF5,
        CHR 0xF6, CHR 0xF8, CHR 0xF9, CHR 0xFA, CHR 0xFB, CHR 0xFC, CHR 0xFD, CHR 0xFE]"

definition latin1_lower_char :: "char \<Rightarrow> char" where
  "latin1_lower_char c =
     (case map_of (zip latin1_capitals latin1_smalls) c of None \<Rightarrow> c | Some l \<Rightarrow> l)"

definition latin1_lower :: "string \<Rightarrow> string" where
  "latin1_lower w = map latin1_lower_char w"

section \<open>Playlist: nodes and the doubly linked list\<close>

text \<open>
  The \<^verbatim>\<open>Node\<close> objects of the source are compared by identity (\<^verbatim>\<open>is\<close>, \<^verbatim>\<open>is not\<close>) and linked
  by references, so they live in a store: a list of nodes in which the address of a node is
  its index. A new node is allocated at the end, and no node is ever freed. The field
  \<^verbatim>\<open>next\<close> of the source is \<open>nxt\<close> here.
\<close>

record node =
  title :: string
  path :: string
  prev :: "nat option"
  nxt :: "nat option"

record doubly_linked_list =
  head :: "nat option"
  tail :: "nat option"
  dll_size :: nat

definition dll_init :: doubly_linked_list where
  "dll_init = \<lparr>head = None, tail = None, dll_size = 0\<rparr>"

text \<open>\<^verbatim>\<open>DoublyLinkedList.append\<close>: the result is the new node, the store and the list.\<close>

definition dll_append ::
  "string \<Rightarrow> string \<Rightarrow> node list \<Rightarrow> doubly_linked_list \<Rightarrow> nat \<times> node list \<times> doubly_linked_list" where
  "dll_append ti pa h d =
     (let n = length h;
          h1 = h @ [\<lparr>title = ti, path = pa, prev = None, nxt = None\<rparr>]
      in case tail d of
           None \<Rightarrow> (n, h1, d\<lparr>head := Some n, tail := Some n, dll_size := dll_size d + 1\<rparr>)
         | Some t \<Rightarrow>
             (let h2 = h1[n := (h1 ! n)\<lparr>prev := Some t\<rparr>];
                  h3 = h2[t := (h2 ! t)\<lparr>nxt := Some n\<rparr>]
              in (n, h3, d\<lparr>tail := Some n, dll_size := dll_size d + 1\<rparr>)))"

text \<open>\<^verbatim>\<open>DoublyLinkedList.clear\<close>.\<close>

definition dll_clear :: "doubly_linked_list \<Rightarrow> doubly_linked_list" where
  "dll_clear d = d\<lparr>head := None, tail := None, dll_size := 0\<rparr>"

text \<open>
  \<^verbatim>\<open>DoublyLinkedList.to_list\<close> follows the \<^verbatim>\<open>next\<close> references until it meets \<^verbatim>\<open>None\<close>. A walk
  through more nodes than the store holds has met a node twice, and the loop of the source
  then never ends: the result is \<open>None\<close>. A reference outside the store cannot exist in the
  source; it gives \<open>None\<close> as well.
\<close>

fun to_list_loop :: "nat \<Rightarrow> node list \<Rightarrow> nat list \<Rightarrow> nat option \<Rightarrow> nat list option" where
  "to_list_loop fuel h out None = Some out"
| "to_list_loop 0 h out (Some cur) = None"
| "to_list_loop (Suc fuel) h out (Some cur) =
     (if cur < length h then to_list_loop fuel h (out @ [cur]) (nxt (h ! cur)) else None)"

definition to_list :: "node list \<Rightarrow> doubly_linked_list \<Rightarrow> nat list option" where
  "to_list h d = to_list_loop (length h) h [] (head d)"

section \<open>The music engine\<close>

text \<open>
  \<^verbatim>\<open>MusicEngine\<close> wraps \<^verbatim>\<open>pygame.mixer.music\<close>, which is not part of the repository.

  Modelled from the spec: the playback session. It is busy while audio is actively
  playing, and not busy once the track has finished or was stopped; loading fails with an
  error on an unreadable or unsupported file, and the other commands never fail. The
  session keeps the list of the commands it received. Whether a load succeeds is decided
  outside the program: it is an argument of \<open>load_and_play\<close>. A failed load raises before
  the engine changes anything. The volume is not modelled.
\<close>

datatype mixer_command = Load string | Play | Pause | Unpause | Stop

record mixer =
  playing :: bool
  halted :: bool
  commands :: "mixer_command list"

record music_engine =
  paused :: bool
  music :: mixer

datatype load_outcome = LoadOk | LoadError string

definition engine_init :: music_engine where
  "engine_init = \<lparr>paused = False, music = \<lparr>playing = False, halted = False, commands = []\<rparr>\<rparr>"

definition load_and_play :: "load_outcome \<Rightarrow> string \<Rightarrow> music_engine \<Rightarrow> string + music_engine" where
  "load_and_play outcome p e =
     (case outcome of
        LoadError msg \<Rightarrow> Inl msg
      | LoadOk \<Rightarrow>
          Inr (e\<lparr>music := \<lparr>playing = True, halted = False,
                           commands = commands (music e) @ [Load p, Play]\<rparr>,
                 paused := False\<rparr>))"

definition pause :: "music_engine \<Rightarrow> music_engine" where
  "pause e =
     e\<lparr>music := (music e)\<lparr>halted := True, commands := commands (music e) @ [Pause]\<rparr>,
       paused := True\<rparr>"

definition resume :: "music_engine \<Rightarrow> music_engine" where
  "resume e =
     e\<lparr>music := (music e)\<lparr>halted := False, commands := commands (music e) @ [Unpause]\<rparr>,
       paused := False\<rparr>"

definition stop :: "music_engine \<Rightarrow> music_engine" where
  "stop e =
     e\<lparr>music := \<lparr>playing = False, halted = False, commands = commands (music e) @ [Stop]\<rparr>,
       paused := False\<rparr>"

definition is_busy :: "music_engine \<Rightarrow> bool" where
  "is_busy e = (playing (music e) \<and> \<not> halted (music e))"

text \<open>The track that plays comes to its end: an event of the session, not of the program.\<close>

definition track_finished :: "music_engine \<Rightarrow> music_engine" where
  "track_finished e = e\<lparr>music := (music e)\<lparr>playing := False\<rparr>\<rparr>"

section \<open>The application\<close>

text \<open>
  The state of \<^verbatim>\<open>MusicPlayerApp\<close>. The dictionaries \<^verbatim>\<open>play_counts\<close> and \<^verbatim>\<open>node_by_title\<close> are
  association lists in insertion order. Of the window, the state keeps what the program
  reads back or what reports an outcome: the items and the selection of the playlist box,
  the suggestions, the label of the track that plays (\<open>None\<close> is the dash), the line of the
  status bar, and the message boxes shown.
\<close>

datatype status_line =
    LoadAFolder
  | LoadedSongs nat
  | PlayingTitle string
  | PausedLine
  | ResumedLine
  | StoppedLine
  | EndOfPlaylist
  | NoPreviousSong
  | ShuffleLine bool

datatype message_box = ShowInfo string string | ShowError string string

record app =
  heap :: "node list"
  dll :: doubly_linked_list
  history_stack :: "nat list"
  play_counts :: "(string \<times> int) list"
  trie :: "char trie"
  shuffle_on :: bool
  current :: "nat option"
  node_by_title :: "(string \<times> nat) list"
  engine :: music_engine
  playlist :: "string list"
  selection :: "nat option"
  suggest_list :: "string list"
  now_label :: "string option"
  status :: status_line
  dialogs :: "message_box list"

text \<open>\<^verbatim>\<open>__init__\<close>; its first call of \<^verbatim>\<open>_poll_playback\<close> finds no current track.\<close>

definition app_init :: app where
  "app_init =
     \<lparr>heap = [], dll = dll_init, history_stack = [], play_counts = [], trie = empty_node,
      shuffle_on = False, current = None, node_by_title = [], engine = engine_init,
      playlist = [], selection = None, suggest_list = [], now_label = None,
      status = LoadAFolder, dialogs = []\<rparr>"

subsection \<open>Loading a folder\<close>

definition AUDIO_EXTS :: "string list" where
  "AUDIO_EXTS = [''.mp3'', ''.wav'', ''.ogg'']"

definition endswith :: "string \<Rightarrow> string list \<Rightarrow> bool" where
  "endswith s sufs = list_ex (\<lambda>x. suffix x s) sufs"

text \<open>One round of the loop that fills the data structures.\<close>

definition fill_song :: "(string \<Rightarrow> string) \<Rightarrow> string \<times> string \<Rightarrow> app \<Rightarrow> app" where
  "fill_song lower song s =
     (case song of (ti, pa) \<Rightarrow>
        (case dll_append ti pa (heap s) (dll s) of (n, h, d) \<Rightarrow>
           s\<lparr>heap := h, dll := d, trie := trie_insert lower ti (trie s),
             node_by_title := AList.update ti n (node_by_title s),
             playlist := playlist s @ [ti]\<rparr>))"

text \<open>
  \<^verbatim>\<open>load_folder\<close>. The answer of the folder dialog (empty when the dialog is cancelled) and
  the joined paths of the entries of the folder (the list \<^verbatim>\<open>files\<close> of the source) are
  arguments, and so are \<open>lower\<close>, which stands for \<^verbatim>\<open>str.lower\<close>, and \<open>stem\<close>, which stands for
  \<^verbatim>\<open>os.path.splitext(os.path.basename(p))[0]\<close>. \<^verbatim>\<open>sorted\<close> with a key is a stable sort, as
  \<open>sort_key\<close> is; strings are compared character by character.
\<close>

definition load_folder ::
  "(string \<Rightarrow> string) \<Rightarrow> (string \<Rightarrow> string) \<Rightarrow> string \<Rightarrow> string list \<Rightarrow> app \<Rightarrow> app" where
  "load_folder lower stem folder files s =
     (if folder = [] then s
      else
        (let songs = map (\<lambda>p. (stem p, p)) (filter (\<lambda>p. endswith (lower p) AUDIO_EXTS) files)
         in if songs = []
            then s\<lparr>dialogs := dialogs s @
                     [ShowInfo ''No audio'' ''No .mp3/.wav/.ogg files found in this folder.'']\<rparr>
            else
              (let s1 = s\<lparr>engine := stop (engine s), dll := dll_clear (dll s),
                          history_stack := [], trie := empty_node, node_by_title := [],
                          current := None, playlist := [], selection := None,
                          suggest_list := []\<rparr>;
                   sorted_songs = sort_key (\<lambda>x. lower (fst x)) songs;
                   s2 = fold (fill_song lower) sorted_songs s1
               in s2\<lparr>status := LoadedSongs (length sorted_songs), now_label := None\<rparr>)))"

subsection \<open>Playback\<close>

definition select_in_listbox :: "string \<Rightarrow> app \<Rightarrow> app" where
  "select_in_listbox ti s =
     (if ti \<in> set (playlist s)
      then s\<lparr>selection := Some (length (takeWhile (\<lambda>t. t \<noteq> ti) (playlist s)))\<rparr>
      else s)"

definition get_count :: "(string \<times> int) list \<Rightarrow> string \<Rightarrow> int" where
  "get_count counts ti = (case map_of counts ti of None \<Rightarrow> 0 | Some c \<Rightarrow> c)"

text \<open>
  \<^verbatim>\<open>play_node\<close>; \<open>None\<close> is the node \<^verbatim>\<open>None\<close>. An exception of the engine is reported in a
  message box, and the function returns before it records anything.
\<close>

definition play_node :: "load_outcome \<Rightarrow> nat option \<Rightarrow> app \<Rightarrow> app" where
  "play_node outcome node s =
     (case node of
        None \<Rightarrow> s
      | Some n \<Rightarrow>
          (case load_and_play outcome (path (heap s ! n)) (engine s) of
             Inl msg \<Rightarrow> s\<lparr>dialogs := dialogs s @ [ShowError ''Playback error'' msg]\<rparr>
           | Inr e \<Rightarrow>
               (let ti = title (heap s ! n);
                    s1 = s\<lparr>engine := e,
                          play_counts :=
                            AList.update ti (get_count (play_counts s) ti + 1) (play_counts s),
                          current := Some n, now_label := Some ti\<rparr>
                in (select_in_listbox ti s1)\<lparr>status := PlayingTitle ti\<rparr>)))"

definition toggle_pause :: "app \<Rightarrow> app" where
  "toggle_pause s =
     (if is_busy (engine s) \<and> \<not> paused (engine s)
      then s\<lparr>engine := pause (engine s), status := PausedLine\<rparr>
      else s\<lparr>engine := resume (engine s), status := ResumedLine\<rparr>)"

definition stop_song :: "app \<Rightarrow> app" where
  "stop_song s = s\<lparr>engine := stop (engine s), status := StoppedLine\<rparr>"

text \<open>
  \<^verbatim>\<open>random.choice\<close> draws one index of the sequence, each with the same probability; the
  draw is the argument \<open>r\<close>, taken modulo the length.
\<close>

definition random_choice :: "nat \<Rightarrow> 'a list \<Rightarrow> 'a" where
  "random_choice r xs = xs ! (r mod length xs)"

text \<open>\<^verbatim>\<open>_random_next\<close>; the outer \<open>None\<close> is a walk of \<open>to_list\<close> that does not return.\<close>

definition random_next :: "nat \<Rightarrow> app \<Rightarrow> nat option option" where
  "random_next r s =
     (case to_list (heap s) (dll s) of
        None \<Rightarrow> None
      | Some nodes \<Rightarrow>
          Some (if nodes = [] then None
                else if current s = None then Some (random_choice r nodes)
                else if length nodes = 1 then None
                else (let choices = filter (\<lambda>n. Some n \<noteq> current s) nodes
                      in if choices \<noteq> [] then Some (random_choice r choices) else None)))"

text \<open>The first lines of \<^verbatim>\<open>next_song\<close>: the node \<^verbatim>\<open>nxt\<close> to move to.\<close>

definition next_target :: "nat \<Rightarrow> app \<Rightarrow> nat option option" where
  "next_target r s =
     (if shuffle_on s then random_next r s
      else Some (case current s of Some c \<Rightarrow> nxt (heap s ! c) | None \<Rightarrow> head (dll s)))"

definition next_song :: "nat \<Rightarrow> load_outcome \<Rightarrow> app \<Rightarrow> app option" where
  "next_song r outcome s =
     (case next_target r s of
        None \<Rightarrow> None
      | Some None \<Rightarrow> Some (s\<lparr>status := EndOfPlaylist\<rparr>)
      | Some (Some n) \<Rightarrow>
          Some (play_node outcome (Some n)
                  (case current s of
                     Some c \<Rightarrow> s\<lparr>history_stack := history_stack s @ [c]\<rparr>
                   | None \<Rightarrow> s)))"

definition prev_song :: "load_outcome \<Rightarrow> app \<Rightarrow> app" where
  "prev_song outcome s =
     (if history_stack s \<noteq> []
      then play_node outcome (Some (last (history_stack s)))
             (s\<lparr>history_stack := butlast (history_stack s)\<rparr>)
      else s\<lparr>status := NoPreviousSong\<rparr>)"

definition toggle_shuffle :: "app \<Rightarrow> app" where
  "toggle_shuffle s = s\<lparr>shuffle_on := \<not> shuffle_on s, status := ShuffleLine (\<not> shuffle_on s)\<rparr>"

text \<open>
  One tick of \<^verbatim>\<open>_poll_playback\<close>; the timer that runs it again after 500 ms is not part of
  the state.
\<close>

definition poll_playback :: "nat \<Rightarrow> load_outcome \<Rightarrow> app \<Rightarrow> app option" where
  "poll_playback r outcome s =
     (if \<not> paused (engine s) \<and> current s \<noteq> None
      then (if \<not> is_busy (engine s) then next_song r outcome s else Some s)
      else Some s)"

subsection \<open>Top played\<close>

text \<open>
  \<^verbatim>\<open>heapq\<close> is the standard library: \<^verbatim>\<open>heappop\<close> removes and returns the least element of the
  heap, here the least pair of a negated count and a title in the order of Python tuples.
  The heap is the list of its elements.
\<close>

definition heappop :: "(int \<times> string) list \<Rightarrow> (int \<times> string) \<times> (int \<times> string) list" where
  "heappop h = (min_list h, remove1 (min_list h) h)"

fun pop_items :: "nat \<Rightarrow> (int \<times> string) list \<Rightarrow> (string \<times> int) list \<Rightarrow> (string \<times> int) list" where
  "pop_items 0 h items = items"
| "pop_items (Suc k) h items =
     (case heappop h of ((neg, ti), h') \<Rightarrow> pop_items k h' (items @ [(ti, - neg)]))"

text \<open>The rows that \<^verbatim>\<open>show_top_played\<close> computes from the ledger.\<close>

definition top_items :: "(string \<times> int) list \<Rightarrow> int \<Rightarrow> (string \<times> int) list" where
  "top_items counts top_k =
     (let h = map (\<lambda>(ti, cnt). (- cnt, ti)) counts
      in pop_items (nat (min top_k (int (length h)))) h [])"

text \<open>
  \<^verbatim>\<open>show_top_played\<close>: the state, and the rows of the window it opens (\<open>None\<close> when it shows
  the message box instead).
\<close>

definition show_top_played :: "int \<Rightarrow> app \<Rightarrow> app \<times> (string \<times> int) list option" where
  "show_top_played top_k s =
     (if play_counts s = []
      then (s\<lparr>dialogs := dialogs s @ [ShowInfo ''Top Played'' ''No play history yet.'']\<rparr>, None)
      else (s, Some (top_items (play_counts s) top_k)))"

section \<open>The search as the specification words it\<close>

text \<open>
  The definitions of this section do not come from the source. \<open>wf_trie\<close> is the invariant
  of a trie built by \<open>trie_insert\<close>: the titles stored at the node reached by a path
  lower-case to that path, no list of titles has a duplicate, and no node has two children
  for one character. \<open>titles\<close> lists the titles below a node, \<open>level_order\<close> lists them
  level by level, and \<open>first_seen\<close> removes the later copies of a word.
\<close>

lemma tsize_child: "(c, ch) \<in> set cs \<Longrightarrow> tsize ch < tsize (TrieNode cs es)"
  by (induction cs) auto

lemma size_child [termination_simp]: "(c, ch) \<in> set cs \<Longrightarrow> size ch < Suc (size_list (size_prod (\<lambda>_. 0) size) cs)"
  by (induction cs) auto

fun wf_trie :: "('c list \<Rightarrow> 'c list) \<Rightarrow> 'c list \<Rightarrow> 'c trie \<Rightarrow> bool" where
  "wf_trie lower p (TrieNode cs es) =
     (distinct es \<and> (\<forall>w \<in> set es. lower w = p) \<and> distinct (map fst cs) \<and>
      (\<forall>(c, ch) \<in> set cs. wf_trie lower (p @ [c]) ch))"

fun titles :: "'c trie \<Rightarrow> 'c list list" where
  "titles (TrieNode cs es) = es @ concat (map (\<lambda>p. titles (snd p)) cs)"

abbreviation kids :: "'c trie list \<Rightarrow> 'c trie list" where
  "kids ns \<equiv> concat (map (\<lambda>n. map snd (children n)) ns)"

lemma tsize_kids: "sum_list (map tsize (kids ns)) + length ns = sum_list (map tsize ns)"
proof (induction ns)
  case (Cons n ns)
  then show ?case by (cases n) (simp add: comp_def)
qed simp

function level_order :: "'c trie list \<Rightarrow> 'c list list" where
  "level_order ns = (if ns = [] then [] else concat (map ends ns) @ level_order (kids ns))"
  by pat_completeness auto
termination
proof (relation "measure (\<lambda>ns. sum_list (map tsize ns))")
  show "wf (measure (\<lambda>ns. sum_list (map tsize ns)))" by simp
next
  fix ns :: "'c trie list" assume "ns \<noteq> []"
  then have "sum_list (map tsize (kids ns)) < sum_list (map tsize ns)"
    using tsize_kids [of ns] by (cases ns) auto
  then show "(kids ns, ns) \<in> measure (\<lambda>ns. sum_list (map tsize ns))"
    by simp
qed

primrec first_seen :: "'a list \<Rightarrow> 'a list" where
  "first_seen [] = []"
| "first_seen (w # ws) = w # filter (\<lambda>x. x \<noteq> w) (first_seen ws)"

function bfs_all :: "'c trie list \<Rightarrow> 'c list list" where
  "bfs_all [] = []"
| "bfs_all (n # q) = ends n @ bfs_all (q @ map snd (children n))"
  by pat_completeness auto
termination
  by (relation "measure (\<lambda>q. sum_list (map tsize q))")
     (auto simp: comp_def, case_tac n, simp add: comp_def)

declare level_order.simps [simp del]

lemma level_order_Nil [simp]: "level_order [] = []"
  by (simp add: level_order.simps)

lemma level_order_step: "ns \<noteq> [] \<Longrightarrow> level_order ns = concat (map ends ns) @ level_order (kids ns)"
  by (subst level_order.simps) simp

lemma level_order_unfold: "level_order ns = concat (map ends ns) @ level_order (kids ns)"
  by (cases "ns = []") (simp_all add: level_order_step)

text \<open>
  The queue of the loop holds the rest of the current level, then the children of the nodes
  of this level already visited.
\<close>

lemma bfs_all_queue:
  "sum_list (map tsize (xs @ ys)) = m \<Longrightarrow>
   bfs_all (xs @ kids ys) = concat (map ends xs) @ level_order (kids ys @ kids xs)"
proof (induction m arbitrary: xs ys rule: less_induct)
  case (less m)
  show ?case using less.prems
  proof (induction xs arbitrary: ys)
    case Nil
    show ?case
    proof (cases "ys = []")
      case True
      then show ?thesis by simp
    next
      case False
      then have "sum_list (map tsize (kids ys @ [])) < m"
        using tsize_kids [of ys] Nil by (cases ys) auto
      then have "bfs_all (kids ys @ kids []) =
          concat (map ends (kids ys)) @ level_order (kids [] @ kids (kids ys))"
        using less.IH by blast
      then show ?thesis
        using level_order_unfold [of "kids ys"] by simp
    qed
  next
    case (Cons x xs)
    have "sum_list (map tsize (xs @ (ys @ [x]))) = m"
      using Cons.prems by simp
    then have "bfs_all (xs @ kids (ys @ [x])) =
        concat (map ends xs) @ level_order (kids (ys @ [x]) @ kids xs)"
      by (rule Cons.IH)
    then show ?case by simp
  qed
qed

lemma bfs_all_level_order: "bfs_all ns = level_order ns"
proof -
  have "bfs_all (ns @ kids []) = concat (map ends ns) @ level_order (kids [] @ kids ns)"
    by (rule bfs_all_queue) (rule refl)
  then show ?thesis
    using level_order_unfold [of ns] by simp
qed

lemma bfs_prefix:
  "\<exists>X. bfs q res limit = res @ X \<and> prefix X (bfs_all q) \<and>
       (X = bfs_all q \<or> limit \<le> int (length (res @ X)))"
proof (induction q res limit rule: bfs.induct)
  case (1 results limit)
  then show ?case by simp
next
  case (2 n q results limit)
  show ?case
  proof (cases "int (length results) < limit")
    case True
    from 2 [OF True] obtain X where
      X: "bfs (q @ map snd (children n)) (results @ ends n) limit = (results @ ends n) @ X"
         "prefix X (bfs_all (q @ map snd (children n)))"
         "X = bfs_all (q @ map snd (children n)) \<or> limit \<le> int (length ((results @ ends n) @ X))"
      by blast
    show ?thesis
      by (rule exI [of _ "ends n @ X"]) (use True X in auto)
  next
    case False
    show ?thesis
      by (rule exI [of _ "[]"]) (use False in auto)
  qed
qed

lemma first_seen_distinct: "distinct ws \<Longrightarrow> first_seen ws = ws"
  by (induction ws) (auto simp: filter_id_conv)

lemma first_seen_filter: "first_seen (filter P ws) = filter P (first_seen ws)"
  by (induction ws) (auto simp: filter_filter conj_commute intro!: filter_cong)

lemma set_first_seen [simp]: "set (first_seen ws) = set ws"
  by (induction ws) auto

text \<open>
  While \<^verbatim>\<open>out\<close> is shorter than the limit, the loop appends the unseen words in first-seen
  order.
\<close>

lemma dedupe_take:
  "seen = set out \<Longrightarrow> int (length out) < limit \<Longrightarrow>
   dedupe ws seen out limit =
     take (nat limit) (out @ first_seen (filter (\<lambda>w. w \<notin> seen) ws))"
proof (induction ws arbitrary: seen out)
  case Nil
  then show ?case by simp
next
  case (Cons w ws)
  show ?case
  proof (cases "w \<in> seen")
    case True
    then show ?thesis using Cons by (simp add: Let_def)
  next
    case False
    let ?out = "out @ [w]"
    have f: "filter (\<lambda>x. x \<noteq> w) (first_seen (filter (\<lambda>w. w \<notin> seen) ws)) =
             first_seen (filter (\<lambda>x. x \<notin> insert w seen) ws)"
      by (simp add: first_seen_filter [symmetric] filter_filter conj_commute)
    show ?thesis
    proof (cases "limit \<le> int (length ?out)")
      case True
      then have "nat limit = length ?out" using Cons.prems by simp
      then show ?thesis using False True by (simp add: Let_def)
    next
      case False2: False
      have "dedupe ws (insert w seen) ?out limit =
            take (nat limit) (?out @ first_seen (filter (\<lambda>x. x \<notin> insert w seen) ws))"
        by (rule Cons.IH) (use Cons.prems False2 in auto)
      then show ?thesis using False False2 f by (simp add: Let_def)
    qed
  qed
qed

lemma dedupe_first_seen:
  "0 < limit \<Longrightarrow> dedupe ws {} [] limit = take (nat limit) (first_seen ws)"
  using dedupe_take [of "{}" "[]" limit ws] by simp

lemma set_update_subset: "set (AList.update k v al) \<subseteq> insert (k, v) (set al)"
  by (induction al) auto

lemma store_end_distinct: "distinct es \<Longrightarrow> distinct (store_end w es)"
  by (auto simp: store_end_def Let_def distinct_tl)

lemma set_store_end: "set (store_end w es) \<subseteq> insert w (set es)"
  by (auto simp: store_end_def Let_def dest: list.set_sel(2) [rotated])

lemma wf_trie_empty [simp]: "wf_trie lower p empty_node"
  by (simp add: empty_node_def)

lemma wf_trie_child:
  "wf_trie lower p node \<Longrightarrow> map_of (children node) c = Some ch \<Longrightarrow> wf_trie lower (p @ [c]) ch"
  by (cases node) (auto dest: map_of_SomeD)

lemma wf_trie_insert_from:
  "wf_trie lower p node \<Longrightarrow> lower w = p @ r \<Longrightarrow> wf_trie lower p (insert_from r w node)"
proof (induction r arbitrary: p node)
  case Nil
  then show ?case
    using set_store_end [of w "ends node"]
    by (cases node) (auto simp: store_end_distinct)
next
  case (Cons c r)
  obtain cs es where node: "node = TrieNode cs es" by (cases node)
  define child where "child = (case map_of cs c of None \<Rightarrow> empty_node | Some x \<Rightarrow> x)"
  have "wf_trie lower (p @ [c]) child"
    using Cons.prems(1) node by (auto simp: child_def split: option.splits dest: map_of_SomeD)
  then have new: "wf_trie lower (p @ [c]) (insert_from r w child)"
    by (rule Cons.IH) (use Cons.prems in simp)
  have "wf_trie lower (p @ [c']) ch'" if "(c', ch') \<in> set (AList.update c (insert_from r w child) cs)" for c' ch'
    using that set_update_subset [of c "insert_from r w child" cs] new Cons.prems(1) node
    by auto
  moreover have "insert_from (c # r) w node = TrieNode (AList.update c (insert_from r w child) cs) es"
    by (simp add: node child_def)
  ultimately show ?case
    using Cons.prems(1) node by (auto simp: distinct_update)
qed

lemma wf_trie_fold:
  "wf_trie lower [] t \<Longrightarrow> wf_trie lower [] (fold (trie_insert lower) ws t)"
  by (induction ws arbitrary: t) (auto simp: trie_insert_def wf_trie_insert_from)

lemma wf_trie_descend:
  "wf_trie lower p t \<Longrightarrow> descend r t = Some n \<Longrightarrow> wf_trie lower (p @ r) n"
proof (induction r arbitrary: p t)
  case (Cons c r)
  then obtain ch where ch: "map_of (children t) c = Some ch" "descend r ch = Some n"
    by (auto split: option.splits)
  from Cons.IH [OF wf_trie_child [OF Cons.prems(1) ch(1)] ch(2)] show ?case by simp
qed simp

lemma titles_alt: "titles t = ends t @ concat (map (\<lambda>p. titles (snd p)) (children t))"
  by (cases t) simp

lemma titles_prefix:
  "wf_trie lower p t \<Longrightarrow> w \<in> set (titles t) \<Longrightarrow> prefix p (lower w)"
proof (induction lower p t arbitrary: w rule: wf_trie.induct)
  case (1 lower p cs es)
  from "1.prems"(2) consider "w \<in> set es" | c ch where "(c, ch) \<in> set cs" "w \<in> set (titles ch)"
    by auto
  then show ?case
  proof cases
    case 1
    then show ?thesis using "1.prems"(1) by auto
  next
    case 2
    have "wf_trie lower (p @ [c]) ch" using "1.prems"(1) 2(1) by auto
    then have "prefix (p @ [c]) (lower w)"
      using "1.IH" [of "(c, ch)" c ch w] 2 by simp
    then show ?thesis by (rule append_prefixD)
  qed
qed

lemma distinct_concat_keys:
  "distinct (map fst cs) \<Longrightarrow>
   \<forall>q \<in> set cs. distinct (f (snd q)) \<and> (\<forall>w \<in> set (f (snd q)). g w = fst q) \<Longrightarrow>
   distinct (concat (map (\<lambda>q. f (snd q)) cs))"
proof (induction cs)
  case (Cons a cs)
  have "distinct (concat (map (\<lambda>q. f (snd q)) cs))"
    using Cons by simp
  moreover have "distinct (f (snd a))" using Cons.prems(2) by simp
  moreover have "set (f (snd a)) \<inter> set (concat (map (\<lambda>q. f (snd q)) cs)) = {}"
  proof (rule ccontr)
    assume "\<not> ?thesis"
    then obtain w q where w: "w \<in> set (f (snd a))" "q \<in> set cs" "w \<in> set (f (snd q))"
      by auto
    then have "g w = fst a" "g w = fst q" using Cons.prems(2) by auto
    then have "fst a = fst q" by simp
    then have "fst a \<in> fst ` set cs" using w(2) by (simp add: image_iff) blast
    then show False using Cons.prems(1) by simp
  qed
  ultimately show ?case by simp
qed simp

lemma titles_distinct: "wf_trie lower p t \<Longrightarrow> distinct (titles t)"
proof (induction lower p t rule: wf_trie.induct)
  case (1 lower p cs es)
  have child: "wf_trie lower (p @ [fst q]) (snd q)" if "q \<in> set cs" for q
    using that "1.prems" by (cases q) auto
  have kids_distinct: "distinct (concat (map (\<lambda>q. titles (snd q)) cs))"
  proof (rule distinct_concat_keys [where g = "\<lambda>w. lower w ! length p"])
    show "distinct (map fst cs)" using "1.prems" by simp
  next
    show "\<forall>q \<in> set cs. distinct (titles (snd q)) \<and>
            (\<forall>w \<in> set (titles (snd q)). lower w ! length p = fst q)"
    proof (intro ballI conjI)
      fix q assume q: "q \<in> set cs"
      show "distinct (titles (snd q))"
        using "1.IH" [of q "fst q" "snd q"] q child [OF q] by simp
    next
      fix q w assume q: "q \<in> set cs" and w: "w \<in> set (titles (snd q))"
      have "prefix (p @ [fst q]) (lower w)"
        using titles_prefix [OF child [OF q] w] .
      then show "lower w ! length p = fst q" by (auto simp: prefix_def)
    qed
  qed
  have "set es \<inter> set (concat (map (\<lambda>q. titles (snd q)) cs)) = {}"
  proof (rule ccontr)
    assume "\<not> ?thesis"
    then obtain w q where w: "w \<in> set es" "q \<in> set cs" "w \<in> set (titles (snd q))"
      by auto
    have "prefix (p @ [fst q]) (lower w)"
      using titles_prefix [OF child [OF w(2)] w(3)] .
    moreover have "lower w = p" using w(1) "1.prems" by simp
    ultimately show False by (simp add: prefix_def)
  qed
  then show ?case using kids_distinct "1.prems" by simp
qed

lemma mset_titles_step:
  "mset (concat (map titles ms)) =
   mset (concat (map ends ms)) + mset (concat (map titles (kids ms)))"
proof (induction ms)
  case (Cons m ms)
  have "map titles (map snd (children m)) = map (\<lambda>p. titles (snd p)) (children m)"
    by simp
  then have "mset (titles m) =
      mset (ends m) + mset (concat (map titles (map snd (children m))))"
    by (simp add: titles_alt [of m] comp_def)
  then show ?case using Cons by simp
qed simp

lemma mset_level_order: "mset (level_order ns) = mset (concat (map titles ns))"
proof (induction ns rule: level_order.induct)
  case (1 ns)
  show ?case
  proof (cases "ns = []")
    case False
    have "level_order ns = concat (map ends ns) @ level_order (kids ns)"
      using False by (rule level_order_step)
    then have "mset (level_order ns) =
        mset (concat (map ends ns)) + mset (level_order (kids ns))"
      by (simp only: mset_append)
    also have "mset (level_order (kids ns)) = mset (concat (map titles (kids ns)))"
      using False by (rule 1)
    finally show ?thesis by (simp only: mset_titles_step [of ns])
  qed simp
qed

lemma mset_level_order_single: "mset (level_order [n]) = mset (titles n)"
  using mset_level_order [of "[n]"] by simp

lemma level_order_titles: "set (level_order [n]) = set (titles n)"
  using mset_level_order_single [of n] by (rule mset_eq_setD)

lemma level_order_distinct: "wf_trie lower p n \<Longrightarrow> distinct (level_order [n])"
proof -
  assume "wf_trie lower p n"
  then have "distinct (titles n)" by (rule titles_distinct)
  then show ?thesis
    using mset_level_order_single [of n] mset_eq_imp_distinct_iff by blast
qed

definition ends_at :: "'c list \<Rightarrow> 'c trie \<Rightarrow> 'c list list" where
  "ends_at p t = (case descend p t of None \<Rightarrow> [] | Some n \<Rightarrow> ends n)"

lemma ends_at_Nil [simp]: "ends_at [] t = ends t"
  by (simp add: ends_at_def)

lemma ends_at_Cons:
  "ends_at (c # p) t = (case map_of (children t) c of None \<Rightarrow> [] | Some ch \<Rightarrow> ends_at p ch)"
  by (simp add: ends_at_def split: option.splits)

lemma ends_at_empty [simp]: "ends_at p empty_node = []"
  by (cases p) (simp_all add: ends_at_Cons empty_node_def)

lemma ends_at_insert_from:
  "ends_at p (insert_from r w t) = (if p = r then store_end w (ends_at p t) else ends_at p t)"
proof (induction r arbitrary: p t)
  case Nil
  then show ?case by (cases p) (simp_all add: ends_at_Cons)
next
  case (Cons c r)
  show ?case
  proof (cases p)
    case Nil
    then show ?thesis by (simp add: Let_def)
  next
    case (Cons c' p')
    then show ?thesis
      using Cons.IH [of p'] 
      by (auto simp: Let_def ends_at_Cons update_conv' split: option.splits)
  qed
qed

lemma ends_at_fold:
  "ends_at p (fold (trie_insert lower) ws t) =
   fold store_end (filter (\<lambda>w. lower w = p) ws) (ends_at p t)"
  by (induction ws arbitrary: t) (auto simp: trie_insert_def ends_at_insert_from)

lemma fold_store_end_set:
  "distinct es \<Longrightarrow> card (set es \<union> set vs) \<le> 20 \<Longrightarrow>
   set (fold store_end vs es) = set es \<union> set vs"
proof (induction vs arbitrary: es)
  case (Cons v vs)
  show ?case
  proof (cases "v \<in> set es")
    case True
    then have "store_end v es = es" by (simp add: store_end_def)
    moreover have "set es \<union> set (v # vs) = set es \<union> set vs" using True by auto
    ultimately show ?thesis using Cons by simp
  next
    case False
    have "card (set (es @ [v])) \<le> card (set es \<union> set (v # vs))"
      by (rule card_mono) auto
    then have "length (es @ [v]) \<le> 20"
      using Cons.prems False distinct_card [of "es @ [v]"] by simp
    then have st: "store_end v es = es @ [v]" using False by (simp add: store_end_def)
    have "set (fold store_end vs (es @ [v])) = set (es @ [v]) \<union> set vs"
      by (rule Cons.IH) (use Cons.prems False in \<open>auto simp: Un_commute insert_commute\<close>)
    then show ?thesis using st by simp
  qed
qed simp

text \<open>
  The search in the words of the specification. The descent starts at the root and moves,
  for each character of the lower-cased prefix in turn, to the child of the node for that
  character; it is lost at the first character without a child. From the node reached, the
  titles are listed level by level, the later copies of a title are dropped, and the list
  is cut after \<open>limit\<close> entries.
\<close>

definition reached :: "'c list \<Rightarrow> 'c trie \<Rightarrow> 'c trie option" where
  "reached p root =
     fold (\<lambda>c r. case r of None \<Rightarrow> None | Some n \<Rightarrow> map_of (children n) c) p (Some root)"

definition search_spec ::
  "('c list \<Rightarrow> 'c list) \<Rightarrow> 'c trie \<Rightarrow> 'c list \<Rightarrow> int \<Rightarrow> 'c list list" where
  "search_spec lower root pfx limit =
     (case reached (lower pfx) root of
        None \<Rightarrow> []
      | Some node \<Rightarrow> take (nat limit) (first_seen (level_order [node])))"

lemma reached_lost:
  "fold (\<lambda>c r. case r of None \<Rightarrow> None | Some n \<Rightarrow> map_of (children n) c) p None = None"
  by (induction p) simp_all

lemma descend_reached: "descend p t = reached p t"
  by (induction p arbitrary: t) (auto simp: reached_def reached_lost split: option.splits)

text \<open>
  In a trie built by insertions, the titles of one level have lower-cased forms of one
  length, and the levels below have longer ones.
\<close>

lemma sorted_map_const: "\<forall>x \<in> set xs. f x = (d :: nat) \<Longrightarrow> sorted (map f xs)"
  by (induction xs) auto

lemma level_order_depth:
  "\<forall>n \<in> set ns. \<exists>p. length p = d \<and> wf_trie lower p n \<Longrightarrow>
   sorted (map (\<lambda>w. length (lower w)) (level_order ns)) \<and>
   (\<forall>w \<in> set (level_order ns). d \<le> length (lower w))"
proof (induction ns arbitrary: d rule: level_order.induct)
  case (1 ns)
  show ?case
  proof (cases "ns = []")
    case True
    then show ?thesis by simp
  next
    case False
    have here: "length (lower w) = d" if "w \<in> set (concat (map ends ns))" for w
    proof -
      from that obtain n where n: "n \<in> set ns" "w \<in> set (ends n)" by auto
      then obtain p where p: "length p = d" "wf_trie lower p n" using "1.prems" by blast
      then show ?thesis using n(2) by (cases n) auto
    qed
    have below: "\<forall>m \<in> set (kids ns). \<exists>p. length p = Suc d \<and> wf_trie lower p m"
    proof
      fix m assume "m \<in> set (kids ns)"
      then obtain n c where n: "n \<in> set ns" "(c, m) \<in> set (children n)" by auto
      then obtain p where p: "length p = d" "wf_trie lower p n" using "1.prems" by blast
      then have "wf_trie lower (p @ [c]) m" using n(2) by (cases n) auto
      then show "\<exists>p. length p = Suc d \<and> wf_trie lower p m"
        using p(1) by (intro exI [of _ "p @ [c]"]) simp
    qed
    have rest: "sorted (map (\<lambda>w. length (lower w)) (level_order (kids ns))) \<and>
        (\<forall>w \<in> set (level_order (kids ns)). Suc d \<le> length (lower w))"
      using False below by (rule "1.IH")
    have first: "sorted (map (\<lambda>w. length (lower w)) (concat (map ends ns)))"
      by (rule sorted_map_const [where d = d]) (use here in blast)
    have "sorted (map (\<lambda>w. length (lower w)) (concat (map ends ns) @ level_order (kids ns)))"
      unfolding map_append sorted_append using first rest here by fastforce
    moreover have "d \<le> length (lower w)"
      if "w \<in> set (concat (map ends ns) @ level_order (kids ns))" for w
    proof -
      from that have "w \<in> set (concat (map ends ns)) \<or> w \<in> set (level_order (kids ns))"
        by simp
      then show ?thesis using here [of w] rest by fastforce
    qed
    ultimately show ?thesis
      unfolding level_order_step [OF False] by blast
  qed
qed

lemma collect_level_order:
  assumes "wf_trie lower p n"
  shows "dedupe (bfs [n] [] limit) {} [] limit = take (nat limit) (first_seen (level_order [n]))"
proof (cases "0 < limit")
  case False
  then show ?thesis by simp
next
  case True
  obtain X where X: "bfs [n] [] limit = X" "prefix X (level_order [n])"
      "X = level_order [n] \<or> limit \<le> int (length X)"
    using bfs_prefix [of "[n]" "[]" limit] by (auto simp: bfs_all_level_order)
  have d: "distinct (level_order [n])" using assms by (rule level_order_distinct)
  from X(2) obtain Y where Y: "level_order [n] = X @ Y" by (auto simp: prefix_def)
  have dX: "distinct X" using d Y by simp
  have "take (nat limit) X = take (nat limit) (level_order [n])"
    using X(3) Y by auto
  then show ?thesis
    using True X(1) d dX by (simp add: dedupe_first_seen first_seen_distinct)
qed

lemma descend_None_iff:
  "descend p t = None \<longleftrightarrow>
   (\<exists>xs c ys n. p = xs @ c # ys \<and> descend xs t = Some n \<and> map_of (children n) c = None)"
proof (induction p arbitrary: t)
  case Nil
  then show ?case by simp
next
  case (Cons a p)
  show ?case
  proof (cases "map_of (children t) a")
    case None
    have "a # p = [] @ a # p \<and> descend [] t = Some t \<and> map_of (children t) a = None"
      using None by simp
    then have "\<exists>xs c ys n. a # p = xs @ c # ys \<and> descend xs t = Some n \<and> map_of (children n) c = None"
      by blast
    then show ?thesis using None by simp
  next
    case (Some ch)
    have "(\<exists>xs c ys n. a # p = xs @ c # ys \<and> descend xs t = Some n \<and> map_of (children n) c = None)
      \<longleftrightarrow> (\<exists>xs c ys n. p = xs @ c # ys \<and> descend xs ch = Some n \<and> map_of (children n) c = None)"
      (is "?L \<longleftrightarrow> ?R")
    proof
      assume ?L
      then obtain xs c ys n where h: "a # p = xs @ c # ys" "descend xs t = Some n"
          "map_of (children n) c = None" by blast
      show ?R
      proof (cases xs)
        case Nil
        then show ?thesis using h Some by simp
      next
        case (Cons x xs')
        then have "p = xs' @ c # ys" "descend xs' ch = Some n"
          using h Some by auto
        then show ?thesis using h(3) by blast
      qed
    next
      assume ?R
      then obtain xs c ys n where h: "p = xs @ c # ys" "descend xs ch = Some n"
          "map_of (children n) c = None" by blast
      then have "a # p = (a # xs) @ c # ys" "descend (a # xs) t = Some n"
        using Some by auto
      then show ?L using h(3) by blast
    qed
    then show ?thesis using Some Cons.IH [of ch] by simp
  qed
qed

lemma descend_append:
  "descend (xs @ ys) t = (case descend xs t of None \<Rightarrow> None | Some n \<Rightarrow> descend ys n)"
  by (induction xs arbitrary: t) (auto split: option.splits)

lemma descend_titles:
  "descend r n = Some m \<Longrightarrow> set (titles m) \<subseteq> set (titles n)"
proof (induction r arbitrary: n)
  case (Cons c r)
  then obtain ch where ch: "map_of (children n) c = Some ch" "descend r ch = Some m"
    by (auto split: option.splits)
  have "(c, ch) \<in> set (children n)" using ch(1) by (rule map_of_SomeD)
  then have "set (titles ch) \<subseteq> set (titles n)"
    by (force simp: titles_alt [of n])
  then show ?case using Cons.IH [OF ch(2)] by blast
qed simp

lemma titles_insert_from:
  "set (titles (insert_from r w t)) \<subseteq> insert w (set (titles t))"
proof (induction r arbitrary: t)
  case Nil
  then show ?case
    using set_store_end [of w "ends t"] by (auto simp: titles_alt [of t])
next
  case (Cons c r)
  define child where "child = (case map_of (children t) c of None \<Rightarrow> empty_node | Some x \<Rightarrow> x)"
  have child: "set (titles child) \<subseteq> set (titles t)"
  proof (cases "map_of (children t) c")
    case None
    then show ?thesis by (simp add: child_def empty_node_def)
  next
    case (Some ch)
    then have "(c, ch) \<in> set (children t)" by (rule map_of_SomeD)
    then show ?thesis using Some by (force simp: child_def titles_alt [of t])
  qed
  have new: "set (titles (insert_from r w child)) \<subseteq> insert w (set (titles t))"
    using Cons.IH [of child] child by blast
  have "set (titles q') \<subseteq> insert w (set (titles t))"
    if "(c', q') \<in> set (AList.update c (insert_from r w child) (children t))" for c' q'
  proof -
    from that set_update_subset [of c "insert_from r w child" "children t"]
    consider "q' = insert_from r w child" | "(c', q') \<in> set (children t)" by auto
    then show ?thesis
    proof cases
      case 1
      then show ?thesis using new by simp
    next
      case 2
      then show ?thesis by (force simp: titles_alt [of t])
    qed
  qed
  then have "set (concat (map (\<lambda>p. titles (snd p))
      (AList.update c (insert_from r w child) (children t)))) \<subseteq> insert w (set (titles t))"
    by force
  moreover have "set (ends t) \<subseteq> set (titles t)" by (simp add: titles_alt [of t])
  ultimately show ?case by (simp add: child_def [symmetric] Let_def) blast
qed

lemma titles_fold:
  "set (titles (fold (trie_insert lower) ws t)) \<subseteq> set (titles t) \<union> set ws"
proof (induction ws arbitrary: t)
  case (Cons w ws)
  show ?case
    using Cons.IH [of "trie_insert lower w t"] titles_insert_from [of "lower w" w t]
    by (auto simp: trie_insert_def)
qed simp

text \<open>
  Claim C7. On a title index built by insertions, \<^verbatim>\<open>prefix_search\<close> is the search of the
  specification: it descends by the lower-cased characters of the prefix and returns the
  empty list when a character has no child; otherwise it returns the titles below the node
  reached, level by level (the titles of the node first), without the later copies of a
  title, cut after \<open>limit\<close> results. The limit is a Python \<^verbatim>\<open>int\<close>: a limit below 1 gives the
  empty list. In terms of the titles inserted: the results are distinct, each of them is
  an inserted title whose lower-cased form starts with the lower-cased prefix, and the
  lengths of their lower-cased forms, which are their levels, do not decrease along the
  list.
\<close>

theorem prefix_search_breadth_first:
  assumes "root = fold (trie_insert lower) ws empty_node"
  shows "prefix_search lower root pfx limit = search_spec lower root pfx limit \<and>
         length (prefix_search lower root pfx limit) \<le> nat limit \<and>
         ((\<exists>xs c ys n. lower pfx = xs @ c # ys \<and> reached xs root = Some n \<and>
              map_of (children n) c = None)
            \<longrightarrow> prefix_search lower root pfx limit = []) \<and>
         distinct (prefix_search lower root pfx limit) \<and>
         set (prefix_search lower root pfx limit) \<subseteq>
           {w \<in> set ws. prefix (lower pfx) (lower w)} \<and>
         sorted (map (\<lambda>w. length (lower w)) (prefix_search lower root pfx limit))"
proof -
  have wf: "wf_trie lower [] root"
    unfolding assms by (rule wf_trie_fold) simp
  have eq: "prefix_search lower root pfx limit = search_spec lower root pfx limit"
  proof (cases "descend (lower pfx) root")
    case None
    then show ?thesis
      by (simp add: prefix_search_def search_spec_def descend_reached [symmetric])
  next
    case (Some n)
    have "wf_trie lower ([] @ lower pfx) n" using wf Some by (rule wf_trie_descend)
    then show ?thesis
      using Some collect_level_order [of lower "[] @ lower pfx" n limit]
      by (simp add: prefix_search_def search_spec_def descend_reached [symmetric])
  qed
  have len: "length (search_spec lower root pfx limit) \<le> nat limit"
    by (simp add: search_spec_def split: option.splits)
  have none: "prefix_search lower root pfx limit = []"
    if "\<exists>xs c ys n. lower pfx = xs @ c # ys \<and> reached xs root = Some n \<and>
          map_of (children n) c = None"
  proof -
    have "descend (lower pfx) root = None"
      using that descend_None_iff [of "lower pfx" root] by (simp add: descend_reached)
    then show ?thesis by (simp add: prefix_search_def)
  qed
  have sem: "distinct (search_spec lower root pfx limit) \<and>
      set (search_spec lower root pfx limit) \<subseteq> {w \<in> set ws. prefix (lower pfx) (lower w)} \<and>
      sorted (map (\<lambda>w. length (lower w)) (search_spec lower root pfx limit))"
  proof (cases "descend (lower pfx) root")
    case None
    then show ?thesis by (simp add: search_spec_def descend_reached [symmetric])
  next
    case (Some n)
    have wfn: "wf_trie lower (lower pfx) n"
      using wf_trie_descend [OF wf Some] by simp
    have d: "distinct (level_order [n])" using wfn by (rule level_order_distinct)
    have res: "search_spec lower root pfx limit = take (nat limit) (level_order [n])"
      using Some d by (simp add: search_spec_def descend_reached [symmetric] first_seen_distinct)
    have "set (titles n) \<subseteq> set (titles root)" using Some by (rule descend_titles)
    also have "\<dots> \<subseteq> set ws"
      using titles_fold [of lower ws empty_node] by (simp add: assms empty_node_def)
    finally have sub: "set (titles n) \<subseteq> set ws" .
    have "set (level_order [n]) \<subseteq> {w \<in> set ws. prefix (lower pfx) (lower w)}"
      using sub titles_prefix [OF wfn] by (auto simp: level_order_titles)
    then have s: "set (take (nat limit) (level_order [n])) \<subseteq>
        {w \<in> set ws. prefix (lower pfx) (lower w)}"
      using set_take_subset [of "nat limit" "level_order [n]"] by blast
    have "\<forall>m \<in> set [n]. \<exists>p. length p = length (lower pfx) \<and> wf_trie lower p m"
      using wfn by auto
    then have "sorted (map (\<lambda>w. length (lower w)) (level_order [n]))"
      using level_order_depth [of "[n]" "length (lower pfx)" lower] by blast
    then have "sorted (take (nat limit) (map (\<lambda>w. length (lower w)) (level_order [n])))"
      by (rule sorted_wrt_take)
    then have o: "sorted (map (\<lambda>w. length (lower w)) (take (nat limit) (level_order [n])))"
      by (simp add: take_map)
    show ?thesis unfolding res using d s o by simp
  qed
  show ?thesis using eq len none sem by simp
qed

lemmas trie_eval = prefix_search_def trie_insert_def latin1_lower_def latin1_lower_char_def
  latin1_capitals_def latin1_smalls_def store_end_def empty_node_def

theorem prefix_search_breadth_first_witness:
  "search_spec latin1_lower
     (fold (trie_insert latin1_lower) [''Beta'', ''alpha'', ''be'', ''BETA'', ''bet''] empty_node)
     ''B'' 3 = [''be'', ''bet'', ''Beta''] \<and>
   prefix_search latin1_lower
     (fold (trie_insert latin1_lower) [''Beta'', ''alpha'', ''be'', ''BETA'', ''bet''] empty_node)
     ''bx'' 3 = []"
proof -
  let ?ws = "[''Beta'', ''alpha'', ''be'', ''BETA'', ''bet'']"
  let ?t = "fold (trie_insert latin1_lower) ?ws empty_node"
  have run: "prefix_search latin1_lower ?t ''B'' 3 = [''be'', ''bet'', ''Beta'']"
    by (simp add: trie_eval)
  have a: "search_spec latin1_lower ?t ''B'' 3 = [''be'', ''bet'', ''Beta'']"
    using prefix_search_breadth_first
      [where lower = latin1_lower and ws = ?ws and pfx = "''B''" and limit = 3, OF refl] run
    by simp
  have "\<exists>n. reached ''b'' ?t = Some n \<and> map_of (children n) CHR ''x'' = None"
    by (simp add: trie_eval reached_def)
  then have "\<exists>xs c ys n. latin1_lower ''bx'' = xs @ c # ys \<and> reached xs ?t = Some n \<and>
      map_of (children n) c = None"
    by (intro exI [of _ "''b''"] exI [of _ "CHR ''x''"] exI [of _ "[]"])
       (simp add: latin1_lower_def latin1_lower_char_def latin1_capitals_def latin1_smalls_def)
  then have b: "prefix_search latin1_lower ?t ''bx'' 3 = []"
    using prefix_search_breadth_first
      [where lower = latin1_lower and ws = ?ws and pfx = "''bx''" and limit = 3, OF refl]
    by blast
  show ?thesis using a b by simp
qed

text \<open>
  Twenty-one titles that differ in the case of their letters only: they all end at the
  node of the path \<^verbatim>\<open>abcde\<close>.
\<close>

definition case_variants :: "string list" where
  "case_variants = [''abcde'', ''Abcde'', ''aBcde'', ''ABcde'', ''abCde'', ''AbCde'', ''aBCde'', ''ABCde'', ''abcDe'', ''AbcDe'', ''aBcDe'', ''ABcDe'', ''abCDe'', ''AbCDe'', ''aBCDe'', ''ABCDe'', ''abcdE'', ''AbcdE'', ''aBcdE'', ''ABcdE'', ''abCdE'']"

text \<open>
  Claim C6, as amended. A title \<open>T\<close> that was inserted into the title index is found by
  the search for \<open>P\<close> whenever the lower-cased form of \<open>P\<close> is a prefix of the lower-cased
  form of \<open>T\<close>, the limit is at least the number of inserted titles that match the prefix,
  and at most 20 distinct titles with the lower-cased form of \<open>T\<close> were inserted. The first
  proviso is about the prefixes \<open>P\<close> of \<open>T\<close>: the index is keyed by lower-cased forms, and
  the lower-cased form of a prefix of \<open>T\<close> need not be a prefix of the lower-cased form of
  \<open>T\<close> (\<^verbatim>\<open>str.lower\<close> writes a capital sigma at the end of a word differently). The second
  is the cap of \<^verbatim>\<open>Trie.insert\<close>: the list of titles of a node holds 20 entries and drops its
  oldest entry beyond that.
\<close>

theorem prefix_search_finds_title:
  assumes root: "root = fold (trie_insert lower) ws empty_node"
    and T: "T \<in> set ws"
    and cap: "card {w \<in> set ws. lower w = lower T} \<le> 20"
    and P: "prefix (lower P) (lower T)"
    and limit: "int (card {w \<in> set ws. prefix (lower P) (lower w)}) \<le> limit"
  shows "T \<in> set (prefix_search lower root P limit)"
proof -
  have wf: "wf_trie lower [] root"
    unfolding root by (rule wf_trie_fold) simp
  have "set (ends_at (lower T) root) = set [] \<union> set (filter (\<lambda>w. lower w = lower T) ws)"
    unfolding root ends_at_fold ends_at_empty
    by (rule fold_store_end_set) (use cap in \<open>simp_all add: Collect_conj_eq Int_commute\<close>)
  then have "T \<in> set (ends_at (lower T) root)" using T by simp
  then obtain m where m: "descend (lower T) root = Some m" "T \<in> set (ends m)"
    by (cases "descend (lower T) root") (auto simp: ends_at_def)
  from P obtain S where S: "lower T = lower P @ S" by (auto simp: prefix_def)
  from m(1) obtain n where n: "descend (lower P) root = Some n" "descend S n = Some m"
    by (cases "descend (lower P) root") (auto simp: S descend_append)
  have "T \<in> set (titles m)" using m(2) by (simp add: titles_alt [of m])
  then have Tn: "T \<in> set (titles n)" using descend_titles [OF n(2)] by blast
  have wfn: "wf_trie lower ([] @ lower P) n" using wf n(1) by (rule wf_trie_descend)
  have d: "distinct (level_order [n])" using wfn by (rule level_order_distinct)
  have "set (titles n) \<subseteq> set (titles root)" using n(1) by (rule descend_titles)
  also have "\<dots> \<subseteq> set ws"
    using titles_fold [of lower ws empty_node] by (simp add: root empty_node_def)
  finally have sub: "set (titles n) \<subseteq> set ws" .
  have "set (level_order [n]) \<subseteq> {w \<in> set ws. prefix (lower P) (lower w)}"
    using sub titles_prefix [OF wfn] by (auto simp: level_order_titles)
  then have "card (set (level_order [n])) \<le> card {w \<in> set ws. prefix (lower P) (lower w)}"
    by (intro card_mono) auto
  then have "int (length (level_order [n])) \<le> limit"
    using limit distinct_card [OF d] by simp
  then have "take (nat limit) (level_order [n]) = level_order [n]" by simp
  then have "prefix_search lower root P limit = level_order [n]"
    using n(1) collect_level_order [OF wfn, of limit] d
    by (simp add: prefix_search_def first_seen_distinct)
  then show ?thesis using Tn by (simp add: level_order_titles)
qed

theorem prefix_search_finds_title_witness:
  "''Beta'' \<in> set (prefix_search latin1_lower
     (fold (trie_insert latin1_lower) [''Beta'', ''alpha'', ''be''] empty_node) ''Be'' 2)"
proof -
  let ?ws = "[''Beta'', ''alpha'', ''be'']"
  have same: "{w \<in> set ?ws. latin1_lower w = latin1_lower ''Beta''} = {''Beta''}"
    by (auto simp: latin1_lower_def latin1_lower_char_def latin1_capitals_def latin1_smalls_def)
  have below: "{w \<in> set ?ws. prefix (latin1_lower ''Be'') (latin1_lower w)} = {''Beta'', ''be''}"
    by (auto simp: latin1_lower_def latin1_lower_char_def latin1_capitals_def latin1_smalls_def)
  have c1: "card {w \<in> set ?ws. latin1_lower w = latin1_lower ''Beta''} \<le> 20"
    unfolding same by simp
  have c2: "int (card {w \<in> set ?ws. prefix (latin1_lower ''Be'') (latin1_lower w)}) \<le> 2"
    unfolding below by simp
  have mem: "''Beta'' \<in> set ?ws" by simp
  have low: "prefix (latin1_lower ''Be'') (latin1_lower ''Beta'')"
    by (simp add: latin1_lower_def latin1_lower_char_def latin1_capitals_def latin1_smalls_def)
  show ?thesis
    using prefix_search_finds_title
      [where lower = latin1_lower and ws = ?ws and T = "''Beta''" and P = "''Be''" and limit = 2,
       OF refl mem c1 low c2]
    by simp
qed

text \<open>
  The claim as stated fails: after \<^verbatim>\<open>abcde\<close>, twenty more titles with the same lower-cased
  form are inserted, and the search for the prefix \<^verbatim>\<open>abc\<close> with limit 100 does not return
  \<^verbatim>\<open>abcde\<close>. The titles are ASCII, where \<^verbatim>\<open>str.lower\<close> changes the letters \<^verbatim>\<open>A\<close> to \<^verbatim>\<open>Z\<close> and
  nothing else.
\<close>

theorem prefix_search_evicted_title:
  "''abcde'' \<in> set case_variants \<and> prefix ''abc'' ''abcde'' \<and>
   int (length case_variants) \<le> 100 \<and>
   ''abcde'' \<notin> set (prefix_search latin1_lower (fold (trie_insert latin1_lower) case_variants empty_node) ''abc'' 100)"
  by (simp add: case_variants_def trie_eval)

section \<open>Playback and navigation\<close>

text \<open>
  The state used in the examples: the application after it has loaded a folder with the
  files \<^verbatim>\<open>alpha.wav\<close>, \<^verbatim>\<open>Beta.mp3\<close> and \<^verbatim>\<open>Gamma.OGG\<close>.
\<close>

definition demo_heap :: "node list" where
  "demo_heap =
     [\<lparr>title = ''alpha'', path = ''/m/alpha.wav'', prev = None, nxt = Some 1\<rparr>,
      \<lparr>title = ''Beta'', path = ''/m/Beta.mp3'', prev = Some 0, nxt = Some 2\<rparr>,
      \<lparr>title = ''Gamma'', path = ''/m/Gamma.OGG'', prev = Some 1, nxt = None\<rparr>]"

definition demo :: app where
  "demo =
     app_init\<lparr>heap := demo_heap, dll := \<lparr>head = Some 0, tail = Some 2, dll_size = 3\<rparr>,
       trie := fold (trie_insert latin1_lower) [''alpha'', ''Beta'', ''Gamma''] empty_node,
       node_by_title := [(''alpha'', 0), (''Beta'', 1), (''Gamma'', 2)],
       engine := stop engine_init, playlist := [''alpha'', ''Beta'', ''Gamma''],
       status := LoadedSongs 3\<rparr>"

lemma get_count_update: "map_of (AList.update ti (get_count counts ti + 1) counts) t =
  (if t = ti then Some (case map_of counts ti of None \<Rightarrow> 1 | Some c \<Rightarrow> c + 1) else map_of counts t)"
  by (simp add: update_conv' get_count_def split: option.splits)

lemma select_in_listbox_fields [simp]:
  "current (select_in_listbox ti s) = current s"
  "play_counts (select_in_listbox ti s) = play_counts s"
  "history_stack (select_in_listbox ti s) = history_stack s"
  "dialogs (select_in_listbox ti s) = dialogs s"
  "heap (select_in_listbox ti s) = heap s"
  "engine (select_in_listbox ti s) = engine s"
  by (simp_all add: select_in_listbox_def)

lemma play_node_error:
  "play_node (LoadError msg) (Some n) s =
     s\<lparr>dialogs := dialogs s @ [ShowError ''Playback error'' msg]\<rparr>"
  by (simp add: play_node_def load_and_play_def)

lemma play_node_ok:
  "current (play_node LoadOk (Some n) s) = Some n"
  "play_counts (play_node LoadOk (Some n) s) =
     AList.update (title (heap s ! n)) (get_count (play_counts s) (title (heap s ! n)) + 1)
       (play_counts s)"
  "history_stack (play_node LoadOk (Some n) s) = history_stack s"
  "dialogs (play_node LoadOk (Some n) s) = dialogs s"
  "status (play_node LoadOk (Some n) s) = PlayingTitle (title (heap s ! n))"
  by (simp_all add: play_node_def load_and_play_def Let_def)

text \<open>
  Claim C3. When the engine raises an error on load-and-play, \<^verbatim>\<open>play_node\<close> reports the
  error in a message box and leaves the current track and the play counts as they were.
  When the engine succeeds, \<^verbatim>\<open>play_node\<close> adds exactly one to the play count of the title of
  the node (a title without an entry gets the count 1), leaves the other counts alone, and
  makes the node the current track.
\<close>

theorem play_node_records_success_only:
  "current (play_node (LoadError msg) (Some n) s) = current s \<and>
   play_counts (play_node (LoadError msg) (Some n) s) = play_counts s \<and>
   dialogs (play_node (LoadError msg) (Some n) s) =
     dialogs s @ [ShowError ''Playback error'' msg] \<and>
   current (play_node LoadOk (Some n) s) = Some n \<and>
   map_of (play_counts (play_node LoadOk (Some n) s)) (title (heap s ! n)) =
     Some (case map_of (play_counts s) (title (heap s ! n)) of None \<Rightarrow> 1 | Some c \<Rightarrow> c + 1) \<and>
   (\<forall>t. t \<noteq> title (heap s ! n) \<longrightarrow>
      map_of (play_counts (play_node LoadOk (Some n) s)) t = map_of (play_counts s) t) \<and>
   dialogs (play_node LoadOk (Some n) s) = dialogs s"
  by (simp add: play_node_error play_node_ok get_count_update)

theorem play_node_records_success_only_witness:
  "map_of (play_counts (play_node LoadOk (Some 1) (play_node LoadOk (Some 1) demo))) ''Beta'' = Some 2 \<and>
   map_of (play_counts (play_node LoadOk (Some 0) (play_node LoadOk (Some 1) demo))) ''Beta'' = Some 1 \<and>
   current (play_node (LoadError ''no such file'') (Some 0) (play_node LoadOk (Some 1) demo)) = Some 1"
proof -
  let ?s = "play_node LoadOk (Some 1) demo"
  have t: "title (heap demo ! 1) = ''Beta''" "title (heap demo ! 0) = ''alpha''"
    by (simp_all add: demo_def demo_heap_def)
  have h: "heap ?s = heap demo"
    by (simp add: play_node_def load_and_play_def Let_def)
  have c0: "map_of (play_counts demo) ''Beta'' = None"
    by (simp add: demo_def app_init_def)
  have c1: "map_of (play_counts ?s) ''Beta'' = Some 1"
    using play_node_records_success_only [of "''x''" 1 demo] t c0 by simp
  have "''Beta'' \<noteq> title (heap ?s ! 0)" using h t by simp
  then have a: "map_of (play_counts (play_node LoadOk (Some 0) ?s)) ''Beta'' = Some 1"
    using play_node_records_success_only [of "''x''" 0 ?s] c1 by simp
  have b: "map_of (play_counts (play_node LoadOk (Some 1) ?s)) ''Beta'' = Some 2"
    using play_node_records_success_only [of "''x''" 1 ?s] c1 h t by simp
  have c: "current (play_node (LoadError ''no such file'') (Some 0) ?s) = Some 1"
    using play_node_records_success_only [of "''no such file''" 0 ?s]
      play_node_records_success_only [of "''x''" 1 demo] by simp
  show ?thesis using a b c by simp
qed

lemma next_song_move:
  "next_target r s = Some (Some n) \<Longrightarrow>
   next_song r outcome s =
     Some (play_node outcome (Some n)
        (case current s of Some c \<Rightarrow> s\<lparr>history_stack := history_stack s @ [c]\<rparr> | None \<Rightarrow> s))"
  by (simp add: next_song_def)

lemma prev_song_empty:
  "history_stack s = [] \<Longrightarrow> prev_song outcome s = s\<lparr>status := NoPreviousSong\<rparr>"
  by (simp add: prev_song_def)

lemma prev_song_pop:
  "history_stack s = hs @ [a] \<Longrightarrow>
   prev_song outcome s = play_node outcome (Some a) (s\<lparr>history_stack := hs\<rparr>)"
  by (simp add: prev_song_def)

lemma play_node_history [simp]:
  "history_stack (play_node outcome node s) = history_stack s"
  by (cases outcome; cases node) (simp_all add: play_node_def load_and_play_def Let_def)

text \<open>
  Claim C9. With shuffle off and a current track \<open>a\<close> that has a successor \<open>b\<close>, an advance
  whose playback succeeds moves to \<open>b\<close> and pushes \<open>a\<close> onto the history; going back then
  pops the history and pushes nothing, and returns to \<open>a\<close> when the playback succeeds.
  Going back with an empty history reports that there is no previous song and leaves the
  current track unchanged.
\<close>

theorem advance_then_go_back:
  assumes "\<not> shuffle_on s" and "current s = Some a" and "nxt (heap s ! a) = Some b"
  shows "(\<exists>s1. next_song r LoadOk s = Some s1 \<and>
            current s1 = Some b \<and> history_stack s1 = history_stack s @ [a] \<and>
            history_stack (prev_song outcome s1) = history_stack s \<and>
            current (prev_song LoadOk s1) = Some a) \<and>
         (history_stack t = [] \<longrightarrow>
            status (prev_song outcome t) = NoPreviousSong \<and>
            current (prev_song outcome t) = current t \<and>
            history_stack (prev_song outcome t) = [])"
proof -
  let ?s1 = "play_node LoadOk (Some b) (s\<lparr>history_stack := history_stack s @ [a]\<rparr>)"
  have "next_target r s = Some (Some b)"
    using assms by (simp add: next_target_def)
  then have n: "next_song r LoadOk s = Some ?s1"
    using assms(2) by (simp add: next_song_move)
  have h: "history_stack ?s1 = history_stack s @ [a]" by simp
  have p: "prev_song oc ?s1 = play_node oc (Some a) (?s1\<lparr>history_stack := history_stack s\<rparr>)" for oc
    using h by (rule prev_song_pop)
  have "\<exists>s1. next_song r LoadOk s = Some s1 \<and>
           current s1 = Some b \<and> history_stack s1 = history_stack s @ [a] \<and>
           history_stack (prev_song outcome s1) = history_stack s \<and>
           current (prev_song LoadOk s1) = Some a"
    using n h by (simp add: p play_node_ok)
  then show ?thesis
    by (simp add: prev_song_empty)
qed

text \<open>
  Claim C10. When the advance finds a node to move to and the engine then fails to play it,
  the track that was current has been appended to the history and stays there: the history
  has grown by one entry, and the current track and the play counts are unchanged (the
  state differs in the history and the message box only).
\<close>

theorem failed_advance_keeps_history_entry:
  assumes "next_target r s = Some (Some n)" and "current s = Some a"
  shows "next_song r (LoadError msg) s =
           Some (s\<lparr>history_stack := history_stack s @ [a],
                   dialogs := dialogs s @ [ShowError ''Playback error'' msg]\<rparr>)"
  using assms by (simp add: next_song_move play_node_error)

text \<open>
  Claim C5, as amended. \<^verbatim>\<open>_toggle_pause\<close> does not look at the current track. When the
  engine is busy and not paused (a track is playing) it issues pause; otherwise (the track
  is paused or stopped, or there is no current track) it issues resume and reports
  \<^verbatim>\<open>Resumed\<close>. It changes neither the current track, nor the history, nor the play counts.
\<close>

theorem toggle_pause_ignores_current:
  "(is_busy (engine s) \<and> \<not> paused (engine s) \<longrightarrow>
      commands (music (engine (toggle_pause s))) = commands (music (engine s)) @ [Pause] \<and>
      status (toggle_pause s) = PausedLine) \<and>
   (paused (engine s) \<or> \<not> is_busy (engine s) \<longrightarrow>
      commands (music (engine (toggle_pause s))) = commands (music (engine s)) @ [Unpause] \<and>
      status (toggle_pause s) = ResumedLine) \<and>
   current (toggle_pause s) = current s \<and>
   history_stack (toggle_pause s) = history_stack s \<and>
   play_counts (toggle_pause s) = play_counts s"
  by (auto simp: toggle_pause_def pause_def resume_def)

text \<open>
  The claim as stated fails: in the initial state no track is current, and the toggle is
  not a no-op; it issues resume and changes the status line.
\<close>

theorem toggle_pause_without_current:
  "current app_init = None \<and>
   commands (music (engine (toggle_pause app_init))) = [Unpause] \<and>
   status (toggle_pause app_init) = ResumedLine \<and>
   toggle_pause app_init \<noteq> app_init"
proof -
  have "status (toggle_pause app_init) = ResumedLine"
    by (simp add: toggle_pause_def app_init_def engine_init_def is_busy_def)
  moreover have "status app_init = LoadAFolder" by (simp add: app_init_def)
  ultimately have "toggle_pause app_init \<noteq> app_init" by auto
  then show ?thesis
    by (simp add: toggle_pause_def app_init_def engine_init_def is_busy_def resume_def)
qed

lemma play_node_ok_more [simp]:
  "heap (play_node outcome node s) = heap s"
  "shuffle_on (play_node outcome node s) = shuffle_on s"
  "dll (play_node outcome node s) = dll s"
  by (cases outcome; cases node; simp add: play_node_def load_and_play_def Let_def select_in_listbox_def)+

lemma play_node_ok_engine:
  "engine (play_node LoadOk (Some n) s) =
     (engine s)\<lparr>music := \<lparr>playing = True, halted = False,
          commands = commands (music (engine s)) @ [Load (path (heap s ! n)), Play]\<rparr>,
        paused := False\<rparr>"
  by (simp add: play_node_def load_and_play_def Let_def)

lemma demo_fields [simp]:
  "heap demo = demo_heap" "shuffle_on demo = False" "current demo = None"
  "history_stack demo = []" "play_counts demo = []" "dialogs demo = []"
  "dll demo = \<lparr>head = Some 0, tail = Some 2, dll_size = 3\<rparr>"
  "engine demo = stop engine_init"
  by (simp_all add: demo_def app_init_def)

theorem advance_then_go_back_witness:
  "(\<exists>s1. next_song 0 LoadOk (play_node LoadOk (Some 0) demo) = Some s1 \<and>
      current s1 = Some 1 \<and> history_stack s1 = [0] \<and>
      history_stack (prev_song LoadOk s1) = [] \<and> current (prev_song LoadOk s1) = Some 0) \<and>
   status (prev_song LoadOk demo) = NoPreviousSong"
proof -
  let ?s = "play_node LoadOk (Some 0) demo"
  have "\<not> shuffle_on ?s" "current ?s = Some 0" "nxt (heap ?s ! 0) = Some 1"
    by (simp_all add: play_node_ok demo_heap_def)
  from advance_then_go_back [OF this, of 0 LoadOk demo]
  show ?thesis by simp
qed

theorem failed_advance_keeps_history_entry_witness:
  "next_song 0 (LoadError ''cannot open'') (play_node LoadOk (Some 0) demo) =
     Some ((play_node LoadOk (Some 0) demo)
        \<lparr>history_stack := [0], dialogs := [ShowError ''Playback error'' ''cannot open'']\<rparr>)"
proof -
  let ?s = "play_node LoadOk (Some 0) demo"
  have "next_target 0 ?s = Some (Some 1)" "current ?s = Some 0"
    by (simp_all add: next_target_def play_node_ok demo_heap_def)
  from failed_advance_keeps_history_entry [OF this, of "''cannot open''"]
  show ?thesis by (simp add: play_node_ok)
qed

theorem toggle_pause_ignores_current_witness:
  "status (toggle_pause (play_node LoadOk (Some 0) demo)) = PausedLine \<and>
   status (toggle_pause (toggle_pause (play_node LoadOk (Some 0) demo))) = ResumedLine"
proof -
  let ?s = "play_node LoadOk (Some 0) demo"
  have busy: "is_busy (engine ?s) \<and> \<not> paused (engine ?s)"
    by (simp add: play_node_ok_engine is_busy_def)
  then have a: "status (toggle_pause ?s) = PausedLine"
    using toggle_pause_ignores_current [of ?s] by blast
  have "paused (engine (toggle_pause ?s))"
    using busy by (simp add: toggle_pause_def pause_def)
  then have "status (toggle_pause (toggle_pause ?s)) = ResumedLine"
    using toggle_pause_ignores_current [of "toggle_pause ?s"] by blast
  then show ?thesis using a by simp
qed

text \<open>
  Claim C1 on the code. A track plays and the user stops it: the engine is neither paused
  nor busy and the current track is still set, so the next tick of the poll calls
  \<^verbatim>\<open>next_song\<close> and the following track starts to play.
\<close>

theorem poll_advances_after_stop:
  "current (stop_song (play_node LoadOk (Some 0) demo)) = Some 0 \<and>
   status (stop_song (play_node LoadOk (Some 0) demo)) = StoppedLine \<and>
   \<not> paused (engine (stop_song (play_node LoadOk (Some 0) demo))) \<and>
   poll_playback 0 LoadOk (stop_song (play_node LoadOk (Some 0) demo)) =
     next_song 0 LoadOk (stop_song (play_node LoadOk (Some 0) demo)) \<and>
   map_option current (poll_playback 0 LoadOk (stop_song (play_node LoadOk (Some 0) demo))) =
     Some (Some 1) \<and>
   map_option status (poll_playback 0 LoadOk (stop_song (play_node LoadOk (Some 0) demo))) =
     Some (PlayingTitle ''Beta'')"
proof -
  let ?s = "stop_song (play_node LoadOk (Some 0) demo)"
  have f: "current ?s = Some 0" "status ?s = StoppedLine" "\<not> paused (engine ?s)"
    "\<not> is_busy (engine ?s)" "shuffle_on ?s = False" "heap ?s = demo_heap"
    by (simp_all add: stop_song_def stop_def is_busy_def play_node_ok)
  have p: "poll_playback 0 LoadOk ?s = next_song 0 LoadOk ?s"
    using f by (simp add: poll_playback_def)
  have "next_target 0 ?s = Some (Some 1)"
    using f by (simp add: next_target_def demo_heap_def)
  then have "next_song 0 LoadOk ?s =
      Some (play_node LoadOk (Some 1) (?s\<lparr>history_stack := history_stack ?s @ [0]\<rparr>))"
    using f(1) by (simp add: next_song_move)
  then show ?thesis
    using f p by (simp add: play_node_ok demo_heap_def)
qed

section \<open>Top played\<close>

text \<open>The update of the ledger in \<^verbatim>\<open>play_node\<close>.\<close>

definition record_play :: "string \<Rightarrow> (string \<times> int) list \<Rightarrow> (string \<times> int) list" where
  "record_play ti counts = AList.update ti (get_count counts ti + 1) counts"

lemma play_node_record_play:
  "play_counts (play_node LoadOk (Some n) s) = record_play (title (heap s ! n)) (play_counts s)"
  by (simp add: play_node_ok record_play_def)

lemma sort_min_list:
  fixes h :: "('a::linorder) list"
  assumes "h \<noteq> []"
  shows "sort h = min_list h # sort (remove1 (min_list h) h)"
proof (rule properties_for_sort)
  have m: "min_list h = Min (set h)" using assms by (rule min_list_Min)
  then have mem: "min_list h \<in> set h" using assms by simp
  then show "mset (min_list h # sort (remove1 (min_list h) h)) = mset h"
    by simp
  have "min_list h \<le> x" if "x \<in> set (remove1 (min_list h) h)" for x
  proof -
    have "x \<in> set h" using that set_remove1_subset [of "min_list h" h] by blast
    then show ?thesis using m by simp
  qed
  then show "sorted (min_list h # sort (remove1 (min_list h) h))"
    by simp
qed

lemma pop_items_sort:
  "k \<le> length h \<Longrightarrow>
   pop_items k h items = items @ map (\<lambda>(neg, ti). (ti, - neg)) (take k (sort h))"
proof (induction k arbitrary: h items)
  case 0
  then show ?case by simp
next
  case (Suc k)
  then have ne: "h \<noteq> []" by auto
  obtain neg ti where m: "min_list h = (neg, ti)" by (cases "min_list h")
  have "min_list h \<in> set h" using ne by (simp add: min_list_Min)
  then have "length (remove1 (min_list h) h) = length h - 1"
    by (simp add: length_remove1)
  then have "k \<le> length (remove1 (min_list h) h)" using Suc.prems by simp
  then have "pop_items k (remove1 (min_list h) h) (items @ [(ti, - neg)]) =
      (items @ [(ti, - neg)]) @
        map (\<lambda>(neg, ti). (ti, - neg)) (take k (sort (remove1 (min_list h) h)))"
    by (rule Suc.IH)
  then show ?case
    using m by (simp add: heappop_def sort_min_list [OF ne])
qed

lemma top_items_sort:
  "top_items counts k =
     map (\<lambda>(neg, ti). (ti, - neg))
       (take (nat k) (sort (map (\<lambda>(ti, cnt). (- cnt, ti)) counts)))"
proof -
  let ?h = "map (\<lambda>(ti, cnt). (- cnt, ti)) counts"
  have "nat (min k (int (length ?h))) \<le> length ?h" by simp
  then have "top_items counts k =
      map (\<lambda>(neg, ti). (ti, - neg)) (take (nat (min k (int (length ?h)))) (sort ?h))"
    by (simp add: top_items_def Let_def pop_items_sort del: length_map)
  moreover have "take (nat (min k (int (length ?h)))) (sort ?h) = take (nat k) (sort ?h)"
    by (cases "k \<le> int (length ?h)") (simp_all add: min_def)
  ultimately show ?thesis by simp
qed

lemma top_items_descending:
  "sorted_wrt (\<lambda>c d. d \<le> c) (map snd (top_items counts k))"
proof -
  let ?h = "map (\<lambda>(ti, cnt). (- cnt, ti)) counts"
  have "sorted (take (nat k) (sort ?h))" by (simp add: sorted_wrt_take)
  then have "sorted_wrt (\<lambda>x y. fst x \<le> fst y) (take (nat k) (sort ?h))"
    by (rule sorted_wrt_mono_rel [rotated]) (auto simp: less_eq_prod_def)
  then have "sorted_wrt (\<lambda>x y. - fst y \<le> - fst x) (take (nat k) (sort ?h))"
    by simp
  then show ?thesis
    by (simp add: top_items_sort sorted_wrt_map case_prod_beta)
qed

lemma top_items_all:
  assumes "int (length counts) \<le> k"
  shows "mset (top_items counts k) = mset counts"
proof -
  let ?h = "map (\<lambda>(ti, cnt). (- cnt, ti)) counts"
  have "take (nat k) (sort ?h) = sort ?h" using assms by simp
  then have "mset (top_items counts k) = image_mset (\<lambda>(neg, ti). (ti, - neg)) (mset (sort ?h))"
    by (simp add: top_items_sort)
  also have "\<dots> = image_mset (\<lambda>(neg, ti). (ti, - neg)) (image_mset (\<lambda>(ti, cnt). (- cnt, ti)) (mset counts))"
    by simp
  also have "\<dots> = mset counts"
    by (simp add: image_mset.compositionality comp_def case_prod_beta)
  finally show ?thesis .
qed

lemma top_items_unique_max:
  assumes "(t, c) \<in> set counts" and "\<forall>e \<in> set counts. e \<noteq> (t, c) \<longrightarrow> snd e < c"
  shows "top_items counts 1 = [(t, c)]"
proof -
  let ?h = "map (\<lambda>(ti, cnt). (- cnt, ti)) counts"
  have ne: "?h \<noteq> []" using assms(1) by auto
  have mem: "(- c, t) \<in> set ?h" using assms(1) by force
  have "(- c, t) \<le> x" if "x \<in> set ?h" for x
  proof -
    from that obtain ti cnt where e: "(ti, cnt) \<in> set counts" "x = (- cnt, ti)" by auto
    show ?thesis
    proof (cases "(ti, cnt) = (t, c)")
      case True
      then show ?thesis using e by simp
    next
      case False
      then have "cnt < c" using assms(2) e(1) by force
      then show ?thesis using e(2) by (simp add: less_eq_prod_def)
    qed
  qed
  then have "Min (set ?h) = (- c, t)" using mem by (intro Min_eqI) auto
  then have "min_list ?h = (- c, t)" using ne by (simp add: min_list_Min)
  then have "take 1 (sort ?h) = [(- c, t)]" by (simp add: sort_min_list [OF ne])
  then show ?thesis by (simp add: top_items_sort)
qed

lemma update_fresh: "map_of al k = None \<Longrightarrow> AList.update k v al = al @ [(k, v)]"
  by (induction al) (auto split: if_splits)

lemma update_last: "map_of al k = None \<Longrightarrow> AList.update k v (al @ [(k, u)]) = al @ [(k, v)]"
  by (induction al) (auto split: if_splits)

lemma record_play_funpow:
  assumes "map_of counts t = None"
  shows "(record_play t ^^ Suc n) counts = counts @ [(t, int (Suc n))]"
proof (induction n)
  case 0
  then show ?case using assms by (simp add: record_play_def get_count_def update_fresh)
next
  case (Suc n)
  have "get_count (counts @ [(t, int (Suc n))]) t = int (Suc n)"
    using assms by (simp add: get_count_def map_add_def split: option.splits)
  then show ?case
    using Suc assms by (simp add: record_play_def update_last)
qed

lemma sort_map_key:
  fixes g :: "'a \<Rightarrow> 'b::linorder"
  shows "sort (map g xs) = map g (sort_key g xs)"
  by (rule properties_for_sort) simp_all

lemma top_items_sort_key:
  "top_items counts k = take (nat k) (sort_key (\<lambda>e. (- snd e, fst e)) counts)"
proof -
  let ?g = "\<lambda>e :: string \<times> int. (- snd e, fst e)"
  have g: "(\<lambda>(ti, cnt). (- cnt, ti)) = ?g" by (auto simp: fun_eq_iff)
  have "map (\<lambda>(neg, ti). (ti, - neg)) (take (nat k) (map ?g (sort_key ?g counts))) =
      take (nat k) (sort_key ?g counts)"
    by (simp add: take_map [symmetric] comp_def)
  then show ?thesis
    unfolding top_items_sort g sort_map_key by simp
qed

lemma mset_take_drop_sum: "mset (take n ys) + mset (drop n ys) = mset ys"
  by (simp only: mset_append [symmetric] append_take_drop_id)

lemma top_items_rows:
  "mset (top_items counts k) \<subseteq># mset counts"
proof -
  let ?ys = "sort_key (\<lambda>e. (- snd e, fst e)) counts"
  have "mset (take (nat k) ?ys) \<subseteq># mset (take (nat k) ?ys) + mset (drop (nat k) ?ys)"
    by (rule mset_subset_eq_add_left)
  then have "mset (take (nat k) ?ys) \<subseteq># mset ?ys"
    by (simp only: mset_take_drop_sum)
  then show ?thesis by (simp add: top_items_sort_key)
qed

lemma top_items_dominate:
  assumes "r \<in> set (top_items counts k)"
    and "e \<in># mset counts - mset (top_items counts k)"
  shows "snd e \<le> snd r"
proof -
  let ?g = "\<lambda>e :: string \<times> int. (- snd e, fst e)"
  let ?ys = "sort_key ?g counts"
  have "mset counts = mset (take (nat k) ?ys) + mset (drop (nat k) ?ys)"
    by (simp add: mset_take_drop_sum)
  then have "mset counts - mset (top_items counts k) = mset (drop (nat k) ?ys)"
    by (simp add: top_items_sort_key)
  then have e: "e \<in> set (drop (nat k) ?ys)" using assms(2) by simp
  have r: "r \<in> set (take (nat k) ?ys)" using assms(1) by (simp add: top_items_sort_key)
  have "sorted (map ?g ?ys)" by simp
  then have "sorted (map ?g (take (nat k) ?ys) @ map ?g (drop (nat k) ?ys))"
    by (simp only: map_append [symmetric] append_take_drop_id)
  then have "\<forall>x \<in> set (map ?g (take (nat k) ?ys)). \<forall>y \<in> set (map ?g (drop (nat k) ?ys)). x \<le> y"
    by (simp only: sorted_append) blast
  then have "?g r \<le> ?g e" using r e by auto
  then show ?thesis by (auto simp: less_eq_prod_def)
qed

text \<open>
  Claim C8. For every ledger and every \<open>k\<close>, the rows of the top-played view are the first
  \<open>k\<close> entries of the ledger sorted by descending play count (entries with the same count by
  ascending title, as the tuples of the heap compare): there are as many rows as the smaller
  of \<open>k\<close> and the number of entries (none when \<open>k\<close> is below 1), every row is an entry of the
  ledger, no entry left out has a higher count than a row, and the counts descend along the
  rows. When \<open>k\<close> is at least the number of entries, the rows are all the entries.
  \<^verbatim>\<open>show_top_played\<close> leaves the ledger as it was; with an empty ledger it shows a message
  and no rows. A title whose count is above every other count is the single row of the
  top-1 view, with its count; in particular after \<^verbatim>\<open>play_node\<close> has recorded \<open>n\<close> plays of a
  title that had no entry, and every other count is below \<open>n\<close>, the top-1 view is that title
  with the count \<open>n\<close>.
\<close>

theorem top_played_descending:
  "top_items counts k = take (nat k) (sort_key (\<lambda>e. (- snd e, fst e)) counts) \<and>
   length (top_items counts k) = min (nat k) (length counts) \<and>
   mset (top_items counts k) \<subseteq># mset counts \<and>
   (\<forall>r e. r \<in> set (top_items counts k) \<and> e \<in># mset counts - mset (top_items counts k)
      \<longrightarrow> snd e \<le> snd r) \<and>
   sorted_wrt (\<lambda>c d. d \<le> c) (map snd (top_items counts k)) \<and>
   (int (length counts) \<le> k \<longrightarrow> mset (top_items counts k) = mset counts) \<and>
   play_counts (fst (show_top_played k s)) = play_counts s \<and>
   (play_counts s = [] \<longrightarrow> snd (show_top_played k s) = None) \<and>
   (play_counts s \<noteq> [] \<longrightarrow>
      snd (show_top_played k s) = Some (top_items (play_counts s) k)) \<and>
   ((t, c) \<in> set counts \<and> (\<forall>e \<in> set counts. e \<noteq> (t, c) \<longrightarrow> snd e < c) \<longrightarrow>
      top_items counts 1 = [(t, c)]) \<and>
   (map_of counts t = None \<and> (\<forall>e \<in> set counts. snd e < int (Suc n)) \<longrightarrow>
      top_items ((record_play t ^^ Suc n) counts) 1 = [(t, int (Suc n))])"
proof -
  have rp: "top_items ((record_play t ^^ Suc n) counts) 1 = [(t, int (Suc n))]"
    if "map_of counts t = None" and "\<forall>e \<in> set counts. snd e < int (Suc n)"
  proof -
    have eq: "(record_play t ^^ Suc n) counts = counts @ [(t, int (Suc n))]"
      using that(1) by (rule record_play_funpow)
    show ?thesis
      unfolding eq by (rule top_items_unique_max) (use that(2) in auto)
  qed
  show ?thesis
  proof (intro conjI)
    show "top_items counts k = take (nat k) (sort_key (\<lambda>e. (- snd e, fst e)) counts)"
      by (rule top_items_sort_key)
    show "length (top_items counts k) = min (nat k) (length counts)"
      by (simp add: top_items_sort_key min.commute)
    show "mset (top_items counts k) \<subseteq># mset counts"
      by (rule top_items_rows)
    show "\<forall>r e. r \<in> set (top_items counts k) \<and>
        e \<in># mset counts - mset (top_items counts k) \<longrightarrow> snd e \<le> snd r"
      using top_items_dominate by blast
    show "sorted_wrt (\<lambda>c d. d \<le> c) (map snd (top_items counts k))"
      by (rule top_items_descending)
    show "int (length counts) \<le> k \<longrightarrow> mset (top_items counts k) = mset counts"
      using top_items_all by blast
    show "play_counts (fst (show_top_played k s)) = play_counts s"
      by (simp add: show_top_played_def)
    show "play_counts s = [] \<longrightarrow> snd (show_top_played k s) = None"
      by (simp add: show_top_played_def)
    show "play_counts s \<noteq> [] \<longrightarrow>
        snd (show_top_played k s) = Some (top_items (play_counts s) k)"
      by (simp add: show_top_played_def)
    show "(t, c) \<in> set counts \<and> (\<forall>e \<in> set counts. e \<noteq> (t, c) \<longrightarrow> snd e < c) \<longrightarrow>
        top_items counts 1 = [(t, c)]"
      using top_items_unique_max [of t c counts] by blast
    show "map_of counts t = None \<and> (\<forall>e \<in> set counts. snd e < int (Suc n)) \<longrightarrow>
        top_items ((record_play t ^^ Suc n) counts) 1 = [(t, int (Suc n))]"
      using rp by blast
  qed
qed


theorem top_played_descending_witness:
  "top_items [(''alpha'', 2), (''Beta'', 5), (''Gamma'', 1), (''delta'', 2)] 3 =
     [(''Beta'', 5), (''alpha'', 2), (''delta'', 2)] \<and>
   mset (top_items [(''alpha'', 2), (''Beta'', 5), (''Gamma'', 1)] 7) =
     mset [(''alpha'', 2), (''Beta'', 5), (''Gamma'', 1)] \<and>
   top_items [(''alpha'', 2), (''Beta'', 5), (''Gamma'', 1)] 1 = [(''Beta'', 5)] \<and>
   top_items ((record_play ''Gamma'' ^^ Suc 2) [(''alpha'', 2)]) 1 = [(''Gamma'', 3)] \<and>
   snd (show_top_played 7 (play_node LoadOk (Some 1) demo)) =
     Some (top_items (play_counts (play_node LoadOk (Some 1) demo)) 7) \<and>
   snd (show_top_played 7 demo) = None"
proof -
  let ?c = "[(''alpha'', 2), (''Beta'', 5), (''Gamma'', 1 :: int)]"
  let ?d = "[(''alpha'', 2), (''Beta'', 5), (''Gamma'', 1 :: int), (''delta'', 2)]"
  let ?s = "play_node LoadOk (Some 1) demo"
  note a = top_played_descending [of ?d 3 demo "''Beta''" 5 0]
  note b = top_played_descending [of ?c 7 ?s "''Beta''" 5 0]
  note c = top_played_descending [of "[(''alpha'', 2)]" 7 ?s "''Gamma''" 5 2]
  have "top_items ?d 3 = take (nat 3) (sort_key (\<lambda>e. (- snd e, fst e)) ?d)"
    using a by blast
  then have rows: "top_items ?d 3 = [(''Beta'', 5), (''alpha'', 2), (''delta'', 2)]"
    by (simp add: less_eq_prod_def less_prod_def)
  have "int (length ?c) \<le> 7 \<longrightarrow> mset (top_items ?c 7) = mset ?c"
    using b by blast
  then have all: "mset (top_items ?c 7) = mset ?c" by simp
  have "(''Beta'', 5) \<in> set ?c \<and> (\<forall>e \<in> set ?c. e \<noteq> (''Beta'', 5) \<longrightarrow> snd e < 5) \<longrightarrow>
      top_items ?c 1 = [(''Beta'', 5)]"
    using b by blast
  then have top: "top_items ?c 1 = [(''Beta'', 5)]" by simp
  have "map_of [(''alpha'', 2 :: int)] ''Gamma'' = None \<and>
      (\<forall>e \<in> set [(''alpha'', 2 :: int)]. snd e < int (Suc 2)) \<longrightarrow>
      top_items ((record_play ''Gamma'' ^^ Suc 2) [(''alpha'', 2)]) 1 = [(''Gamma'', int (Suc 2))]"
    using c by blast
  then have rec: "top_items ((record_play ''Gamma'' ^^ Suc 2) [(''alpha'', 2)]) 1 = [(''Gamma'', 3)]"
    by simp
  have "play_counts ?s \<noteq> [] \<longrightarrow>
      snd (show_top_played 7 ?s) = Some (top_items (play_counts ?s) 7)"
    using b by blast
  moreover have "play_counts ?s \<noteq> []" by (simp add: play_node_ok)
  ultimately have win: "snd (show_top_played 7 ?s) = Some (top_items (play_counts ?s) 7)"
    by blast
  have "play_counts demo = [] \<longrightarrow> snd (show_top_played 3 demo) = None"
    using a by blast
  moreover have "play_counts demo = []" by (simp add: demo_def app_init_def)
  ultimately have "snd (show_top_played 3 demo) = None" by blast
  then have none: "snd (show_top_played 7 demo) = None"
    by (simp add: show_top_played_def split: if_splits)
  show ?thesis using rows all top rec win none by blast
qed

section \<open>Shuffle\<close>

text \<open>The state after loading a folder with the single file \<^verbatim>\<open>alpha.wav\<close>, shuffle switched on.\<close>

definition solo :: app where
  "solo =
     app_init\<lparr>heap := [\<lparr>title = ''alpha'', path = ''/m/alpha.wav'', prev = None, nxt = None\<rparr>],
       dll := \<lparr>head = Some 0, tail = Some 0, dll_size = 1\<rparr>,
       trie := fold (trie_insert latin1_lower) [''alpha''] empty_node,
       node_by_title := [(''alpha'', 0)], engine := stop engine_init,
       playlist := [''alpha''], shuffle_on := True, status := ShuffleLine True\<rparr>"



lemma toggle_shuffle_fields [simp]:
  "shuffle_on (toggle_shuffle s) = (\<not> shuffle_on s)"
  "heap (toggle_shuffle s) = heap s" "dll (toggle_shuffle s) = dll s"
  "current (toggle_shuffle s) = current s"
  by (simp_all add: toggle_shuffle_def)

lemma solo_fields [simp]:
  "heap solo = [\<lparr>title = ''alpha'', path = ''/m/alpha.wav'', prev = None, nxt = None\<rparr>]"
  "dll solo = \<lparr>head = Some 0, tail = Some 0, dll_size = 1\<rparr>"
  "shuffle_on solo" "current solo = None"
  by (simp_all add: solo_def app_init_def)



section \<open>Loading a folder\<close>

text \<open>The node that the loop of \<^verbatim>\<open>load_folder\<close> leaves at position \<open>j\<close> of the new sequence.\<close>

definition linked_node :: "nat \<Rightarrow> (string \<times> string) list \<Rightarrow> nat \<Rightarrow> node" where
  "linked_node n0 xs j =
     \<lparr>title = fst (xs ! j), path = snd (xs ! j),
      prev = (if j = 0 then None else Some (n0 + j - 1)),
      nxt = (if Suc j < length xs then Some (n0 + Suc j) else None)\<rparr>"

lemma dll_append_first:
  "tail d = None \<Longrightarrow>
   dll_append ti pa h d =
     (length h, h @ [\<lparr>title = ti, path = pa, prev = None, nxt = None\<rparr>],
      d\<lparr>head := Some (length h), tail := Some (length h), dll_size := dll_size d + 1\<rparr>)"
  by (simp add: dll_append_def Let_def)

lemma dll_append_later:
  "tail d = Some t \<Longrightarrow> t < length h \<Longrightarrow>
   dll_append ti pa h d =
     (length h,
      (h[t := (h ! t)\<lparr>nxt := Some (length h)\<rparr>]) @
        [\<lparr>title = ti, path = pa, prev = Some t, nxt = None\<rparr>],
      d\<lparr>tail := Some (length h), dll_size := dll_size d + 1\<rparr>)"
  by (simp add: dll_append_def Let_def nth_append list_update_append)

lemma fill_song_other [simp]:
  "history_stack (fill_song lower x s) = history_stack s"
  "play_counts (fill_song lower x s) = play_counts s"
  "current (fill_song lower x s) = current s"
  "engine (fill_song lower x s) = engine s"
  "shuffle_on (fill_song lower x s) = shuffle_on s"
  "dialogs (fill_song lower x s) = dialogs s"
  "trie (fill_song lower x s) = trie_insert lower (fst x) (trie s)"
  "playlist (fill_song lower x s) = playlist s @ [fst x]"
  by (simp_all add: fill_song_def split: prod.splits)

lemma fold_fill_song_other [simp]:
  "history_stack (fold (fill_song lower) xs s) = history_stack s"
  "play_counts (fold (fill_song lower) xs s) = play_counts s"
  "current (fold (fill_song lower) xs s) = current s"
  "engine (fold (fill_song lower) xs s) = engine s"
  "shuffle_on (fold (fill_song lower) xs s) = shuffle_on s"
  "dialogs (fold (fill_song lower) xs s) = dialogs s"
  by (induction xs arbitrary: s; simp)+

lemma fold_fill_song_trie:
  "trie (fold (fill_song lower) xs s) = fold (trie_insert lower) (map fst xs) (trie s)"
  by (induction xs arbitrary: s) simp_all

lemma fold_fill_song_playlist:
  "playlist (fold (fill_song lower) xs s) = playlist s @ map fst xs"
  by (induction xs arbitrary: s) simp_all

lemma linked_node_snoc_old:
  "Suc j < length xs \<Longrightarrow> linked_node n0 (xs @ [x]) j = linked_node n0 xs j"
  by (simp add: linked_node_def nth_append)

lemma linked_node_snoc_last:
  "xs \<noteq> [] \<Longrightarrow>
   linked_node n0 (xs @ [x]) (length xs - 1) =
     (linked_node n0 xs (length xs - 1))\<lparr>nxt := Some (n0 + length xs)\<rparr>"
  by (cases xs rule: rev_cases) (simp_all add: linked_node_def nth_append)

lemma linked_node_snoc_new:
  "linked_node n0 (xs @ [x]) (length xs) =
     \<lparr>title = fst x, path = snd x,
      prev = (if xs = [] then None else Some (n0 + length xs - 1)), nxt = None\<rparr>"
  by (simp add: linked_node_def)

lemma fill_song_first:
  assumes "tail (dll s) = None"
  shows "heap (fill_song lower x s) = heap s @ [\<lparr>title = fst x, path = snd x, prev = None, nxt = None\<rparr>]"
    and "dll (fill_song lower x s) =
           (dll s)\<lparr>head := Some (length (heap s)), tail := Some (length (heap s)),
                   dll_size := dll_size (dll s) + 1\<rparr>"
    and "node_by_title (fill_song lower x s) = AList.update (fst x) (length (heap s)) (node_by_title s)"
  using assms by (simp_all add: fill_song_def dll_append_first split: prod.splits)

lemma fill_song_later:
  assumes "tail (dll s) = Some t" and "t < length (heap s)"
  shows "heap (fill_song lower x s) =
           ((heap s)[t := (heap s ! t)\<lparr>nxt := Some (length (heap s))\<rparr>]) @
             [\<lparr>title = fst x, path = snd x, prev = Some t, nxt = None\<rparr>]"
    and "dll (fill_song lower x s) =
           (dll s)\<lparr>tail := Some (length (heap s)), dll_size := dll_size (dll s) + 1\<rparr>"
    and "node_by_title (fill_song lower x s) = AList.update (fst x) (length (heap s)) (node_by_title s)"
  using assms by (simp_all add: fill_song_def dll_append_later split: prod.splits)

lemma fold_fill_song_chain:
  assumes "dll s = \<lparr>head = None, tail = None, dll_size = 0\<rparr>"
  shows "length (heap (fold (fill_song lower) xs s)) = length (heap s) + length xs \<and>
         (\<forall>j < length xs. heap (fold (fill_song lower) xs s) ! (length (heap s) + j) =
            linked_node (length (heap s)) xs j) \<and>
         dll (fold (fill_song lower) xs s) =
           \<lparr>head = (if xs = [] then None else Some (length (heap s))),
            tail = (if xs = [] then None else Some (length (heap s) + length xs - 1)),
            dll_size = length xs\<rparr> \<and>
         node_by_title (fold (fill_song lower) xs s) =
           fold (\<lambda>e. AList.update (fst e) (snd e))
             (zip (map fst xs) [length (heap s) ..< length (heap s) + length xs])
             (node_by_title s)"
proof (induction xs rule: rev_induct)
  case Nil
  then show ?case using assms by simp
next
  case (snoc x xs)
  let ?n0 = "length (heap s)"
  let ?k = "length xs"
  let ?s2 = "fold (fill_song lower) xs s"
  have len: "length (heap ?s2) = ?n0 + ?k"
    and nodes: "\<And>j. j < ?k \<Longrightarrow> heap ?s2 ! (?n0 + j) = linked_node ?n0 xs j"
    and d: "dll ?s2 = \<lparr>head = (if xs = [] then None else Some ?n0),
            tail = (if xs = [] then None else Some (?n0 + ?k - 1)), dll_size = ?k\<rparr>"
    and nbt: "node_by_title ?s2 =
           fold (\<lambda>e. AList.update (fst e) (snd e))
             (zip (map fst xs) [?n0 ..< ?n0 + ?k]) (node_by_title s)"
    using snoc.IH by auto
  have f: "fold (fill_song lower) (xs @ [x]) s = fill_song lower x ?s2" by simp
  have z: "zip (map fst (xs @ [x])) [?n0 ..< ?n0 + length (xs @ [x])] =
           zip (map fst xs) [?n0 ..< ?n0 + ?k] @ [(fst x, ?n0 + ?k)]"
    by simp
  show ?case
  proof (cases "xs = []")
    case True
    then have t: "tail (dll ?s2) = None" using assms by simp
    show ?thesis
      unfolding f using True assms fill_song_first [OF t, where x = x and lower = lower]
      by (simp add: linked_node_def)
  next
    case False
    then have kpos: "0 < ?k" by simp
    let ?t = "?n0 + ?k - 1"
    have t: "tail (dll ?s2) = Some ?t" using d False by simp
    have tl: "?t < length (heap ?s2)" using len kpos by simp
    note fl = fill_song_later [OF t tl, where x = x and lower = lower]
    have h: "heap (fill_song lower x ?s2) =
        ((heap ?s2)[?t := (heap ?s2 ! ?t)\<lparr>nxt := Some (?n0 + ?k)\<rparr>]) @
          [\<lparr>title = fst x, path = snd x, prev = Some ?t, nxt = None\<rparr>]"
      using fl(1) len by simp
    have c1: "length (heap (fill_song lower x ?s2)) = ?n0 + length (xs @ [x])"
      using h len by simp
    have c2: "heap (fill_song lower x ?s2) ! (?n0 + j) = linked_node ?n0 (xs @ [x]) j"
      if jl: "j < length (xs @ [x])" for j
    proof -
      have "Suc j < ?k \<or> Suc j = ?k \<or> j = ?k" using jl by auto
      then consider "Suc j < ?k" | "Suc j = ?k" | "j = ?k" by blast
      then show ?thesis
      proof cases
        case 1
        then have "heap (fill_song lower x ?s2) ! (?n0 + j) = heap ?s2 ! (?n0 + j)"
          using h len by (simp add: nth_append)
        then show ?thesis using 1 nodes [of j] by (simp add: linked_node_snoc_old)
      next
        case 2
        then have j: "?n0 + j = ?t" "j = ?k - 1" by simp_all
        have "heap (fill_song lower x ?s2) ! ?t = (heap ?s2 ! ?t)\<lparr>nxt := Some (?n0 + ?k)\<rparr>"
          using h tl by (simp add: nth_append)
        moreover have "heap ?s2 ! ?t = linked_node ?n0 xs (?k - 1)"
          using nodes [of "?k - 1"] kpos by simp
        ultimately show ?thesis
          using j linked_node_snoc_last [OF False, of ?n0 x] by simp
      next
        case 3
        then have "heap (fill_song lower x ?s2) ! (?n0 + j) =
            \<lparr>title = fst x, path = snd x, prev = Some ?t, nxt = None\<rparr>"
          using h len by (simp add: nth_append)
        then show ?thesis using 3 False by (simp add: linked_node_snoc_new)
      qed
    qed
    have c3: "dll (fill_song lower x ?s2) =
        \<lparr>head = Some ?n0, tail = Some (?n0 + length (xs @ [x]) - 1),
         dll_size = length (xs @ [x])\<rparr>"
      using fl(2) d False len by simp
    have c4: "node_by_title (fill_song lower x ?s2) =
        fold (\<lambda>e. AList.update (fst e) (snd e))
          (zip (map fst (xs @ [x])) [?n0 ..< ?n0 + length (xs @ [x])]) (node_by_title s)"
      unfolding z using fl(3) nbt len by simp
    show ?thesis
      unfolding f using c1 c2 c3 c4 by simp
  qed
qed

lemma to_list_loop_chain:
  assumes "length h = n0 + k"
    and "\<And>j. j < k \<Longrightarrow> nxt (h ! (n0 + j)) = (if Suc j < k then Some (n0 + Suc j) else None)"
  shows "j < k \<Longrightarrow> k - j \<le> fuel \<Longrightarrow>
         to_list_loop fuel h out (Some (n0 + j)) = Some (out @ [n0 + j ..< n0 + k])"
proof (induction fuel arbitrary: j out)
  case 0
  then show ?case by simp
next
  case (Suc fuel)
  have cur: "n0 + j < length h" using assms(1) Suc.prems(1) by simp
  show ?case
  proof (cases "Suc j < k")
    case True
    have "to_list_loop fuel h (out @ [n0 + j]) (Some (n0 + Suc j)) =
        Some ((out @ [n0 + j]) @ [n0 + Suc j ..< n0 + k])"
      by (rule Suc.IH) (use True Suc.prems in auto)
    moreover have "[n0 + j ..< n0 + k] = (n0 + j) # [n0 + Suc j ..< n0 + k]"
      using True by (simp add: upt_conv_Cons)
    ultimately show ?thesis
      using cur assms(2) [OF Suc.prems(1)] True by simp
  next
    case False
    then have "k = Suc j" using Suc.prems(1) by simp
    then have "[n0 + j ..< n0 + k] = [n0 + j]"
      by simp
    then show ?thesis
      using cur assms(2) [OF Suc.prems(1)] False by simp
  qed
qed

lemma linked_node_fields [simp]:
  "nxt (linked_node n0 xs j) = (if Suc j < length xs then Some (n0 + Suc j) else None)"
  "title (linked_node n0 xs j) = fst (xs ! j)"
  "path (linked_node n0 xs j) = snd (xs ! j)"
  by (simp_all add: linked_node_def)

lemma fold_fill_song_to_list:
  assumes "dll s = \<lparr>head = None, tail = None, dll_size = 0\<rparr>"
  shows "to_list (heap (fold (fill_song lower) xs s)) (dll (fold (fill_song lower) xs s)) =
           Some [length (heap s) ..< length (heap s) + length xs]"
proof (cases "xs = []")
  case True
  then show ?thesis using assms by (simp add: to_list_def)
next
  case False
  let ?s2 = "fold (fill_song lower) xs s"
  note c = fold_fill_song_chain [OF assms, where xs = xs and lower = lower]
  have len: "length (heap ?s2) = length (heap s) + length xs" using c by simp
  have nx: "nxt (heap ?s2 ! (length (heap s) + j)) =
      (if Suc j < length xs then Some (length (heap s) + Suc j) else None)"
    if "j < length xs" for j
    using c that by simp
  have hd: "head (dll ?s2) = Some (length (heap s) + 0)" using c False by simp
  have "to_list_loop (length (heap ?s2)) (heap ?s2) [] (Some (length (heap s) + 0)) =
      Some ([] @ [length (heap s) + 0 ..< length (heap s) + length xs])"
    by (rule to_list_loop_chain [OF len nx]) (use False len in auto)
  then show ?thesis using hd by (simp add: to_list_def)
qed

lemma fold_fill_song_tracks:
  assumes "dll s = \<lparr>head = None, tail = None, dll_size = 0\<rparr>"
  shows "map (\<lambda>i. (title (heap (fold (fill_song lower) xs s) ! i), path (heap (fold (fill_song lower) xs s) ! i)))
           [length (heap s) ..< length (heap s) + length xs] = xs"
proof (rule nth_equalityI)
  show "length (map (\<lambda>i. (title (heap (fold (fill_song lower) xs s) ! i),
      path (heap (fold (fill_song lower) xs s) ! i))) [length (heap s) ..< length (heap s) + length xs]) =
      length xs" by simp
next
  fix j assume "j < length (map (\<lambda>i. (title (heap (fold (fill_song lower) xs s) ! i),
      path (heap (fold (fill_song lower) xs s) ! i))) [length (heap s) ..< length (heap s) + length xs])"
  then have j: "j < length xs" by simp
  then have "heap (fold (fill_song lower) xs s) ! (length (heap s) + j) = linked_node (length (heap s)) xs j"
    using fold_fill_song_chain [OF assms, where xs = xs and lower = lower] by simp
  then show "map (\<lambda>i. (title (heap (fold (fill_song lower) xs s) ! i),
      path (heap (fold (fill_song lower) xs s) ! i))) [length (heap s) ..< length (heap s) + length xs] ! j =
      xs ! j"
    using j by simp
qed

lemma map_of_fold_update:
  "map_of (fold (\<lambda>e. AList.update (fst e) (snd e)) zs al) = map_of al ++ map_of (rev zs)"
proof (induction zs arbitrary: al)
  case Nil
  then show ?case by simp
next
  case (Cons z zs)
  have "map_of (fold (\<lambda>e. AList.update (fst e) (snd e)) (z # zs) al) =
        map_of (AList.update (fst z) (snd z) al) ++ map_of (rev zs)"
    using Cons.IH [of "AList.update (fst z) (snd z) al"] by simp
  also have "map_of (AList.update (fst z) (snd z) al) = map_of al ++ map_of [z]"
    by (cases z) (simp add: update_conv')
  also have "(map_of al ++ map_of [z]) ++ map_of (rev zs) =
        map_of al ++ (map_of [z] ++ map_of (rev zs))"
    by (rule map_add_assoc [symmetric])
  also have "map_of [z] ++ map_of (rev zs) = map_of (rev (z # zs))"
    by (simp only: rev.simps map_of_append)
  finally show ?case .
qed

text \<open>
  For the examples: \<^verbatim>\<open>os.path.basename\<close> and the root of \<^verbatim>\<open>os.path.splitext\<close> on paths with the
  separator \<^verbatim>\<open>/\<close> (the extension starts at the last dot of the name, unless only dots
  precede it).
\<close>

definition basename :: "string \<Rightarrow> string" where
  "basename p = rev (takeWhile (\<lambda>c. c \<noteq> CHR ''/'') (rev p))"

definition splitext_root :: "string \<Rightarrow> string" where
  "splitext_root b =
     (let ext = rev (takeWhile (\<lambda>c. c \<noteq> CHR ''.'') (rev b));
          root = take (length b - length ext - 1) b
      in if CHR ''.'' \<in> set b \<and> list_ex (\<lambda>c. c \<noteq> CHR ''.'') root then root else b)"

definition stem_of :: "string \<Rightarrow> string" where
  "stem_of p = splitext_root (basename p)"

definition other_files :: "string list" where
  "other_files = [''/n/b.MP3'', ''/n/readme.txt'', ''/n/A.ogg'']"

lemma other_songs:
  "map (\<lambda>p. (stem_of p, p)) (filter (\<lambda>p. endswith (latin1_lower p) AUDIO_EXTS) other_files) =
     [(''b'', ''/n/b.MP3''), (''A'', ''/n/A.ogg'')]"
  by (simp add: other_files_def endswith_def AUDIO_EXTS_def latin1_lower_def latin1_lower_char_def latin1_capitals_def latin1_smalls_def
      suffix_to_prefix stem_of_def basename_def splitext_root_def Let_def)

lemma other_sorted:
  "sort_key (\<lambda>x. latin1_lower (fst x)) [(''b'', ''/n/b.MP3''), (''A'', ''/n/A.ogg'')] =
     [(''A'', ''/n/A.ogg''), (''b'', ''/n/b.MP3'')]"
  by (simp add: latin1_lower_def latin1_lower_char_def latin1_capitals_def latin1_smalls_def)

lemma load_folder_success:
  assumes "folder \<noteq> []"
    and "map (\<lambda>p. (stem p, p)) (filter (\<lambda>p. endswith (lower p) AUDIO_EXTS) files) = songs"
    and "songs \<noteq> []"
  shows "load_folder lower stem folder files s =
     (fold (fill_song lower) (sort_key (\<lambda>x. lower (fst x)) songs)
        (s\<lparr>engine := stop (engine s), dll := dll_clear (dll s), history_stack := [],
           trie := empty_node, node_by_title := [], current := None, playlist := [],
           selection := None, suggest_list := []\<rparr>))
       \<lparr>status := LoadedSongs (length (sort_key (\<lambda>x. lower (fst x)) songs)), now_label := None\<rparr>"
  using assms by (simp add: load_folder_def Let_def)

text \<open>
  What a successful load of a folder (a folder was chosen and holds at least one audio
  file) does, from any state: the history is empty; the play counts are the ones of the
  state before, whatever they are; no track is current; the sequence is the list of the new
  nodes, whose titles and paths are the audio files of the folder sorted by lower-cased
  title; the title index holds the titles of these files and nothing else; the registry
  maps every title to the last node of the sequence with that title; the playlist box
  shows the titles. Nothing of this depends on the state before, except the addresses of
  the new nodes, which follow the nodes allocated so far. \<^verbatim>\<open>load_folder\<close> is one step: no
  other command sees a state in between.
\<close>

theorem load_folder_rebuilds:
  assumes "folder \<noteq> []"
    and "map (\<lambda>p. (stem p, p)) (filter (\<lambda>p. endswith (lower p) AUDIO_EXTS) files) = songs"
    and "songs \<noteq> []"
    and "sort_key (\<lambda>x. lower (fst x)) songs = tracks"
    and "[length (heap s) ..< length (heap s) + length tracks] = ids"
    and "load_folder lower stem folder files s = s'"
  shows "history_stack s' = [] \<and> play_counts s' = play_counts s \<and> current s' = None \<and>
         to_list (heap s') (dll s') = Some ids \<and>
         map (\<lambda>i. (title (heap s' ! i), path (heap s' ! i))) ids = tracks \<and>
         trie s' = fold (trie_insert lower) (map fst tracks) empty_node \<and>
         map_of (node_by_title s') = map_of (rev (zip (map fst tracks) ids)) \<and>
         playlist s' = map fst tracks"
proof -
  let ?s1 = "s\<lparr>engine := stop (engine s), dll := dll_clear (dll s), history_stack := [],
           trie := empty_node, node_by_title := [], current := None, playlist := [],
           selection := None, suggest_list := []\<rparr>"
  let ?s2 = "fold (fill_song lower) tracks ?s1"
  have s': "s' = ?s2\<lparr>status := LoadedSongs (length tracks), now_label := None\<rparr>"
    using load_folder_success [OF assms(1-3), where s = s] assms(4,6) by simp
  have d: "dll ?s1 = \<lparr>head = None, tail = None, dll_size = 0\<rparr>"
    by (simp add: dll_clear_def)
  have h: "heap ?s1 = heap s" by simp
  have ids: "[length (heap ?s1) ..< length (heap ?s1) + length tracks] = ids"
    using assms(5) by simp
  have walk: "to_list (heap ?s2) (dll ?s2) = Some ids"
    using fold_fill_song_to_list [OF d, where xs = tracks and lower = lower] ids by simp
  have tr: "map (\<lambda>i. (title (heap ?s2 ! i), path (heap ?s2 ! i))) ids = tracks"
    using fold_fill_song_tracks [OF d, where xs = tracks and lower = lower] ids by simp
  have nbt: "node_by_title ?s2 =
      fold (\<lambda>e. AList.update (fst e) (snd e)) (zip (map fst tracks) ids) []"
    using fold_fill_song_chain [OF d, where xs = tracks and lower = lower] ids by simp
  have reg: "map_of (node_by_title ?s2) = map_of (rev (zip (map fst tracks) ids))"
    unfolding nbt map_of_fold_update by simp
  have ti: "trie ?s2 = fold (trie_insert lower) (map fst tracks) empty_node"
    by (simp add: fold_fill_song_trie)
  have pl: "playlist ?s2 = map fst tracks"
    by (simp add: fold_fill_song_playlist)
  show ?thesis
    unfolding s' using walk tr reg ti pl by simp
qed

lemma played_alpha:
  "heap (play_node LoadOk (Some 0) demo) = demo_heap"
  "play_counts (play_node LoadOk (Some 0) demo) = [(''alpha'', 1)]"
  by (simp_all add: play_node_ok demo_heap_def get_count_def)

theorem load_folder_rebuilds_witness:
  "history_stack (load_folder latin1_lower stem_of ''/n'' other_files (play_node LoadOk (Some 0) demo)) = [] \<and>
   current (load_folder latin1_lower stem_of ''/n'' other_files (play_node LoadOk (Some 0) demo)) = None \<and>
   to_list (heap (load_folder latin1_lower stem_of ''/n'' other_files (play_node LoadOk (Some 0) demo)))
     (dll (load_folder latin1_lower stem_of ''/n'' other_files (play_node LoadOk (Some 0) demo))) = Some [3, 4] \<and>
   playlist (load_folder latin1_lower stem_of ''/n'' other_files (play_node LoadOk (Some 0) demo)) = [''A'', ''b'']"
proof -
  let ?s = "play_node LoadOk (Some 0) demo"
  have folder: "''/n'' \<noteq> []" by simp
  have songs: "[(''b'', ''/n/b.MP3''), (''A'', ''/n/A.ogg'')] \<noteq> []" by simp
  have ids: "[length (heap ?s) ..< length (heap ?s) +
      length [(''A'', ''/n/A.ogg''), (''b'', ''/n/b.MP3'')]] = [3, 4]"
    by (simp add: played_alpha demo_heap_def upt_rec)
  from load_folder_rebuilds [OF folder other_songs songs other_sorted ids refl]
  show ?thesis by simp
qed

text \<open>
  The ledger after \<^verbatim>\<open>load_folder\<close> is the ledger before it, in every state and for every
  folder.
\<close>

lemma load_folder_ledger:
  "play_counts (load_folder lower stem folder files s) = play_counts s"
  by (simp add: load_folder_def Let_def fold_fill_song_other)

text \<open>
  Claim C2. The specification has the play-count ledger cleared by a folder load, with the
  history. \<^verbatim>\<open>load_folder\<close> does not clear it: its block \<^verbatim>\<open># Reset DSA\<close> assigns a new list, a
  new history, a new index and a new registry and sets \<^verbatim>\<open>current\<close> to \<^verbatim>\<open>None\<close>, and has no
  assignment to \<^verbatim>\<open>play_counts\<close>, which \<^verbatim>\<open>__init__\<close> declares with the other four under
  \<^verbatim>\<open># DSA structures\<close>. Here the track \<^verbatim>\<open>alpha\<close> is played and then a folder with two other audio
  files is loaded: the load succeeds, the history is empty and no track is current, and the
  ledger still holds the count of \<^verbatim>\<open>alpha\<close>, a title that is no longer in the playlist.
\<close>

theorem load_folder_keeps_ledger:
  "play_counts (play_node LoadOk (Some 0) demo) = [(''alpha'', 1)] \<and>
   status (load_folder latin1_lower stem_of ''/n'' other_files (play_node LoadOk (Some 0) demo)) =
     LoadedSongs 2 \<and>
   history_stack (load_folder latin1_lower stem_of ''/n'' other_files
     (play_node LoadOk (Some 0) demo)) = [] \<and>
   current (load_folder latin1_lower stem_of ''/n'' other_files
     (play_node LoadOk (Some 0) demo)) = None \<and>
   playlist (load_folder latin1_lower stem_of ''/n'' other_files
     (play_node LoadOk (Some 0) demo)) = [''A'', ''b''] \<and>
   play_counts (load_folder latin1_lower stem_of ''/n'' other_files
     (play_node LoadOk (Some 0) demo)) = [(''alpha'', 1)]"
proof -
  let ?s = "play_node LoadOk (Some 0) demo"
  have folder: "''/n'' \<noteq> []" by simp
  have songs: "[(''b'', ''/n/b.MP3''), (''A'', ''/n/A.ogg'')] \<noteq> []" by simp
  have st: "status (load_folder latin1_lower stem_of ''/n'' other_files ?s) = LoadedSongs 2"
    unfolding load_folder_success [OF folder other_songs songs] other_sorted by simp
  have hi: "history_stack (load_folder latin1_lower stem_of ''/n'' other_files ?s) = []"
    unfolding load_folder_success [OF folder other_songs songs] other_sorted
    by (simp add: fold_fill_song_other)
  have cu: "current (load_folder latin1_lower stem_of ''/n'' other_files ?s) = None"
    unfolding load_folder_success [OF folder other_songs songs] other_sorted
    by (simp add: fold_fill_song_other)
  have pl: "playlist (load_folder latin1_lower stem_of ''/n'' other_files ?s) = [''A'', ''b'']"
    unfolding load_folder_success [OF folder other_songs songs] other_sorted
    by (simp add: fold_fill_song_playlist)
  have pc: "play_counts (load_folder latin1_lower stem_of ''/n'' other_files ?s) = [(''alpha'', 1)]"
    unfolding load_folder_success [OF folder other_songs songs] other_sorted
    by (simp add: fold_fill_song_other played_alpha)
  show ?thesis using st hi cu pl pc played_alpha(2) by simp
qed

section \<open>The example states are reachable\<close>

text \<open>
  The states \<open>demo\<close> and \<open>solo\<close> of the examples are what \<^verbatim>\<open>load_folder\<close> builds from the
  initial state.
\<close>

definition demo_files :: "string list" where
  "demo_files = [''/m/Beta.mp3'', ''/m/alpha.wav'', ''/m/notes.txt'', ''/m/Gamma.OGG'']"

lemma demo_songs:
  "map (\<lambda>p. (stem_of p, p)) (filter (\<lambda>p. endswith (latin1_lower p) AUDIO_EXTS) demo_files) =
     [(''Beta'', ''/m/Beta.mp3''), (''alpha'', ''/m/alpha.wav''), (''Gamma'', ''/m/Gamma.OGG'')]"
  by (simp add: demo_files_def endswith_def AUDIO_EXTS_def latin1_lower_def latin1_lower_char_def latin1_capitals_def latin1_smalls_def
      suffix_to_prefix stem_of_def basename_def splitext_root_def Let_def)

lemma demo_sorted:
  "sort_key (\<lambda>x. latin1_lower (fst x))
     [(''Beta'', ''/m/Beta.mp3''), (''alpha'', ''/m/alpha.wav''), (''Gamma'', ''/m/Gamma.OGG'')] =
     [(''alpha'', ''/m/alpha.wav''), (''Beta'', ''/m/Beta.mp3''), (''Gamma'', ''/m/Gamma.OGG'')]"
  by (simp add: latin1_lower_def latin1_lower_char_def latin1_capitals_def latin1_smalls_def)

lemma demo_loaded: "load_folder latin1_lower stem_of ''/m'' demo_files app_init = demo"
proof -
  have folder: "''/m'' \<noteq> []" by simp
  have songs: "[(''Beta'', ''/m/Beta.mp3''), (''alpha'', ''/m/alpha.wav''),
      (''Gamma'', ''/m/Gamma.OGG'')] \<noteq> []" by simp
  show ?thesis
    unfolding load_folder_success [OF folder demo_songs songs] demo_sorted
    by (simp add: demo_def demo_heap_def app_init_def dll_init_def dll_clear_def
        fill_song_def dll_append_def Let_def)
qed

lemma solo_loaded:
  "toggle_shuffle (load_folder latin1_lower stem_of ''/m'' [''/m/alpha.wav''] app_init) = solo"
proof -
  have folder: "''/m'' \<noteq> []" by simp
  have s: "map (\<lambda>p. (stem_of p, p)) (filter (\<lambda>p. endswith (latin1_lower p) AUDIO_EXTS) [''/m/alpha.wav'']) =
      [(''alpha'', ''/m/alpha.wav'')]"
    by (simp add: endswith_def AUDIO_EXTS_def latin1_lower_def latin1_lower_char_def latin1_capitals_def latin1_smalls_def
        suffix_to_prefix stem_of_def basename_def splitext_root_def Let_def)
  have songs: "[(''alpha'', ''/m/alpha.wav'')] \<noteq> []" by simp
  show ?thesis
    unfolding load_folder_success [OF folder s songs]
    by (simp add: solo_def app_init_def dll_init_def dll_clear_def toggle_shuffle_def
        fill_song_def dll_append_def Let_def)
qed

end
